theory Spec2Isabelle
  imports Main "HOL-Library.Monad_Syntax"
begin

section \<open>Memory model\<close>

text \<open>
  \<^verbatim>\<open>Container.h\<close> builds the list from heap cells linked by raw pointers, and several
  properties of the container are about aliasing, so the heap is explicit. An address is
  an index into the heap; a cell holds a live \<^verbatim>\<open>Node\<close> or \<open>None\<close> once it was released
  with \<^verbatim>\<open>delete\<close>. \<^verbatim>\<open>new\<close> always hands out the next unused index. A pointer is an
  address or \<open>None\<close> for \<^verbatim>\<open>nullptr\<close>.

  Reading or writing through a null or released pointer is undefined behaviour in C++;
  the primitives below return \<open>None\<close> there, and the public operations turn that into
  the error \<open>undefined_behaviour\<close>, which is distinct from the exception
  \<^verbatim>\<open>std::out_of_range\<close>.
\<close>

type_synonym addr = nat
type_synonym ptr = "addr option"

text \<open>
  \<^verbatim>\<open>struct Node { T value; Node* next; Node* prev; }\<close>, the fields with the prefix
  \<open>node_\<close>.
\<close>

record 'a Node =
  node_value :: 'a
  node_next :: ptr
  node_prev :: ptr

type_synonym 'a heap = "'a Node option list"

datatype error = out_of_range | terminate_called | undefined_behaviour

definition node_at :: "'a heap \<Rightarrow> ptr \<Rightarrow> 'a Node option" where
  "node_at h p = (case p of None \<Rightarrow> None
                  | Some a \<Rightarrow> if a < length h then h ! a else None)"

text \<open>\<^verbatim>\<open>p->value\<close>, \<^verbatim>\<open>p->next\<close>, \<^verbatim>\<open>p->prev\<close> as reads.\<close>

definition get_value :: "'a heap \<Rightarrow> ptr \<Rightarrow> 'a option" where
  "get_value h p = map_option node_value (node_at h p)"

definition get_next :: "'a heap \<Rightarrow> ptr \<Rightarrow> ptr option" where
  "get_next h p = map_option node_next (node_at h p)"

definition get_prev :: "'a heap \<Rightarrow> ptr \<Rightarrow> ptr option" where
  "get_prev h p = map_option node_prev (node_at h p)"

definition update_node :: "'a heap \<Rightarrow> ptr \<Rightarrow> ('a Node \<Rightarrow> 'a Node) \<Rightarrow> 'a heap option" where
  "update_node h p f =
     (case p of None \<Rightarrow> None
      | Some a \<Rightarrow> (case node_at h p of None \<Rightarrow> None
                   | Some n \<Rightarrow> Some (h[a := Some (f n)])))"

text \<open>\<^verbatim>\<open>p->value = v\<close>, \<^verbatim>\<open>p->next = q\<close>, \<^verbatim>\<open>p->prev = q\<close> as writes.\<close>

definition set_value :: "'a heap \<Rightarrow> ptr \<Rightarrow> 'a \<Rightarrow> 'a heap option" where
  "set_value h p v = update_node h p (\<lambda>n. n\<lparr>node_value := v\<rparr>)"

definition set_next :: "'a heap \<Rightarrow> ptr \<Rightarrow> ptr \<Rightarrow> 'a heap option" where
  "set_next h p q = update_node h p (\<lambda>n. n\<lparr>node_next := q\<rparr>)"

definition set_prev :: "'a heap \<Rightarrow> ptr \<Rightarrow> ptr \<Rightarrow> 'a heap option" where
  "set_prev h p q = update_node h p (\<lambda>n. n\<lparr>node_prev := q\<rparr>)"

text \<open>\<^verbatim>\<open>new Node(val)\<close>: the constructors of \<^verbatim>\<open>Node\<close> set both links to \<^verbatim>\<open>nullptr\<close>.\<close>

definition new_Node :: "'a heap \<Rightarrow> 'a \<Rightarrow> 'a heap \<times> ptr" where
  "new_Node h v =
     (h @ [Some \<lparr>node_value = v, node_next = None, node_prev = None\<rparr>], Some (length h))"

text \<open>\<^verbatim>\<open>delete p\<close>: nothing happens on \<^verbatim>\<open>nullptr\<close>; releasing a dead cell is undefined.\<close>

definition delete_Node :: "'a heap \<Rightarrow> ptr \<Rightarrow> 'a heap option" where
  "delete_Node h p =
     (case p of None \<Rightarrow> Some h
      | Some a \<Rightarrow> (case node_at h p of None \<Rightarrow> None
                   | Some n \<Rightarrow> Some (h[a := None])))"

section \<open>Iterators\<close>

text \<open>
  \<^verbatim>\<open>iterator\<close> and \<^verbatim>\<open>const_iterator\<close> have the same members and the same code for every
  operator; one record models both. The fields are \<^verbatim>\<open>current_\<close> and \<^verbatim>\<open>temp_node_\<close>.
\<close>

record iterator =
  current :: ptr
  it_temp_node :: ptr

text \<open>\<^verbatim>\<open>iterator(Node* node = nullptr, Node* temp_node = nullptr)\<close>\<close>

definition iterator_ctor :: "ptr \<Rightarrow> ptr \<Rightarrow> iterator" where
  "iterator_ctor node tmp = \<lparr>current = node, it_temp_node = tmp\<rparr>"

definition iterator_default :: iterator where
  "iterator_default = iterator_ctor None None"

text \<open>\<^verbatim>\<open>operator*\<close>\<close>

definition iter_deref :: "'a heap \<Rightarrow> iterator \<Rightarrow> error + 'a" where
  "iter_deref h it =
     (if current it = it_temp_node it then Inl out_of_range
      else case get_value h (current it) of
             None \<Rightarrow> Inl undefined_behaviour
           | Some v \<Rightarrow> Inr v)"

text \<open>
  \<^verbatim>\<open>operator->\<close> returns the address of the \<^verbatim>\<open>value\<close> member; the model returns the
  pointer to the node that holds it.
\<close>

definition iter_arrow :: "'a heap \<Rightarrow> iterator \<Rightarrow> error + ptr" where
  "iter_arrow h it =
     (if current it = it_temp_node it then Inl out_of_range
      else case node_at h (current it) of
             None \<Rightarrow> Inl undefined_behaviour
           | Some n \<Rightarrow> Inr (current it))"

text \<open>Pre-increment \<^verbatim>\<open>operator++()\<close>\<close>

definition iter_inc :: "'a heap \<Rightarrow> iterator \<Rightarrow> error + iterator" where
  "iter_inc h it =
     (if current it = it_temp_node it then Inl out_of_range
      else case get_next h (current it) of
             None \<Rightarrow> Inl undefined_behaviour
           | Some q \<Rightarrow> Inr (it\<lparr>current := q\<rparr>))"

text \<open>Post-increment \<^verbatim>\<open>operator++(int)\<close>: the new iterator and the copy that is returned.\<close>

definition iter_post_inc :: "'a heap \<Rightarrow> iterator \<Rightarrow> error + iterator \<times> iterator" where
  "iter_post_inc h it =
     (case iter_inc h it of Inl e \<Rightarrow> Inl e | Inr it' \<Rightarrow> Inr (it', it))"

text \<open>Pre-decrement \<^verbatim>\<open>operator--()\<close>: no check, and a second step when it lands on the sentinel.\<close>

definition iter_dec :: "'a heap \<Rightarrow> iterator \<Rightarrow> error + iterator" where
  "iter_dec h it =
     (case get_prev h (current it) of
        None \<Rightarrow> Inl undefined_behaviour
      | Some c \<Rightarrow>
          if c = it_temp_node it then
            (case get_prev h c of
               None \<Rightarrow> Inl undefined_behaviour
             | Some c' \<Rightarrow> Inr (it\<lparr>current := c'\<rparr>))
          else Inr (it\<lparr>current := c\<rparr>))"

text \<open>Post-decrement \<^verbatim>\<open>operator--(int)\<close>\<close>

definition iter_post_dec :: "'a heap \<Rightarrow> iterator \<Rightarrow> error + iterator \<times> iterator" where
  "iter_post_dec h it =
     (case iter_dec h it of Inl e \<Rightarrow> Inl e | Inr it' \<Rightarrow> Inr (it', it))"

text \<open>\<^verbatim>\<open>operator==\<close> and \<^verbatim>\<open>operator!=\<close> compare \<^verbatim>\<open>current_\<close> only.\<close>

definition iter_eq :: "iterator \<Rightarrow> iterator \<Rightarrow> bool" where
  "iter_eq a b = (current a = current b)"

definition iter_neq :: "iterator \<Rightarrow> iterator \<Rightarrow> bool" where
  "iter_neq a b = (\<not> iter_eq a b)"

subsection \<open>Reverse iterators\<close>

text \<open>
  Modelled from the spec: \<^verbatim>\<open>reverse_iterator\<close> is \<^verbatim>\<open>std::reverse_iterator<iterator>\<close> of the
  standard library, which is not part of the sources. It is the direction-reversing
  adapter of the specification: it stores a base iterator, dereferencing yields the
  element at the predecessor of the base, advancing decrements the base, and two
  reverse iterators are equal when their bases are.
\<close>

datatype reverse_iterator = Reverse (base: iterator)

definition rev_deref :: "'a heap \<Rightarrow> reverse_iterator \<Rightarrow> error + 'a" where
  "rev_deref h r =
     (case iter_dec h (base r) of Inl e \<Rightarrow> Inl e | Inr tmp \<Rightarrow> iter_deref h tmp)"

definition rev_inc :: "'a heap \<Rightarrow> reverse_iterator \<Rightarrow> error + reverse_iterator" where
  "rev_inc h r =
     (case iter_dec h (base r) of Inl e \<Rightarrow> Inl e | Inr b \<Rightarrow> Inr (Reverse b))"

definition rev_eq :: "reverse_iterator \<Rightarrow> reverse_iterator \<Rightarrow> bool" where
  "rev_eq a b = iter_eq (base a) (base b)"

section \<open>The container\<close>

text \<open>
  The members of \<^verbatim>\<open>CircularList\<close> are \<^verbatim>\<open>temp_node_\<close> (the sentinel) and \<^verbatim>\<open>size_\<close>.
  \<^verbatim>\<open>size_\<close> is a \<^verbatim>\<open>std::size_t\<close>; it counts live nodes, each of which occupies more than
  one byte of the address space that \<^verbatim>\<open>std::size_t\<close> spans, so the counter cannot wrap
  and is a natural number here.

  A member function takes the heap and the object and returns the heap and the object
  after the call together with the value it returns or the error it raises. A call that
  raises returns the state it left behind.
\<close>

record 'a CircularList =
  temp_node :: ptr
  size_field :: nat

type_synonym ('a, 'r) outcome = "'a heap \<times> 'a CircularList \<times> (error + 'r)"

text \<open>Turns the result of a block of pointer operations into an outcome.\<close>

definition or_undefined ::
  "'a heap \<Rightarrow> 'a CircularList \<Rightarrow> ('a heap \<times> 'a CircularList \<times> 'r) option \<Rightarrow> ('a, 'r) outcome" where
  "or_undefined h l r =
     (case r of None \<Rightarrow> (h, l, Inl undefined_behaviour)
      | Some (h', l', x) \<Rightarrow> (h', l', Inr x))"

text \<open>\<^verbatim>\<open>CircularList()\<close>; the argument is the value \<^verbatim>\<open>T()\<close> stored in the sentinel.\<close>

definition default_ctor :: "'a \<Rightarrow> 'a heap \<Rightarrow> ('a heap \<times> 'a CircularList) option" where
  "default_ctor d h = do {
     let (h1, tmp) = new_Node h d;
     h2 \<leftarrow> set_next h1 tmp tmp;
     h3 \<leftarrow> set_prev h2 tmp tmp;
     Some (h3, \<lparr>temp_node = tmp, size_field = 0\<rparr>)
   }"

definition size_cl :: "'a CircularList \<Rightarrow> nat" where
  "size_cl l = size_field l"

definition empty_cl :: "'a CircularList \<Rightarrow> bool" where
  "empty_cl l = (size_field l = 0)"

text \<open>
  \<^verbatim>\<open>begin()\<close> reads \<^verbatim>\<open>temp_node_->next\<close>; \<^verbatim>\<open>end()\<close> reads no memory. \<^verbatim>\<open>cbegin()\<close>,
  \<^verbatim>\<open>cend()\<close> and the \<^verbatim>\<open>const\<close> overloads have the same bodies.
\<close>

definition begin_cl :: "'a heap \<Rightarrow> 'a CircularList \<Rightarrow> iterator option" where
  "begin_cl h l = do {
     first \<leftarrow> get_next h (temp_node l);
     Some (iterator_ctor first (temp_node l))
   }"

definition end_cl :: "'a CircularList \<Rightarrow> iterator" where
  "end_cl l = iterator_ctor (temp_node l) (temp_node l)"

definition rbegin :: "'a CircularList \<Rightarrow> reverse_iterator" where
  "rbegin l = Reverse (end_cl l)"

definition rend :: "'a heap \<Rightarrow> 'a CircularList \<Rightarrow> reverse_iterator option" where
  "rend h l = map_option Reverse (begin_cl h l)"

text \<open>\<^verbatim>\<open>emplace(pos, args...)\<close>, with the value that the arguments construct.\<close>

definition emplace :: "'a heap \<Rightarrow> 'a CircularList \<Rightarrow> iterator \<Rightarrow> 'a \<Rightarrow> ('a, iterator) outcome" where
  "emplace h l pos v = or_undefined h l (do {
     let (h1, newNode) = new_Node h v;
     let target = current pos;
     h2 \<leftarrow> set_next h1 newNode target;
     tp \<leftarrow> get_prev h2 target;
     h3 \<leftarrow> set_prev h2 newNode tp;
     tp' \<leftarrow> get_prev h3 target;
     h4 \<leftarrow> set_next h3 tp' newNode;
     h5 \<leftarrow> set_prev h4 target newNode;
     Some (h5, l\<lparr>size_field := size_field l + 1\<rparr>, iterator_ctor newNode (temp_node l))
   })"

text \<open>Both overloads of \<^verbatim>\<open>insert\<close> forward to \<^verbatim>\<open>emplace\<close>.\<close>

definition insert_cl :: "'a heap \<Rightarrow> 'a CircularList \<Rightarrow> iterator \<Rightarrow> 'a \<Rightarrow> ('a, iterator) outcome" where
  "insert_cl h l pos v = emplace h l pos v"

definition discard :: "('a, 'r) outcome \<Rightarrow> ('a, unit) outcome" where
  "discard r = (case r of (h, l, Inl e) \<Rightarrow> (h, l, Inl e) | (h, l, Inr x) \<Rightarrow> (h, l, Inr ()))"

definition push_back :: "'a heap \<Rightarrow> 'a CircularList \<Rightarrow> 'a \<Rightarrow> ('a, unit) outcome" where
  "push_back h l v = discard (insert_cl h l (end_cl l) v)"

definition push_front :: "'a heap \<Rightarrow> 'a CircularList \<Rightarrow> 'a \<Rightarrow> ('a, unit) outcome" where
  "push_front h l v =
     (case begin_cl h l of
        None \<Rightarrow> (h, l, Inl undefined_behaviour)
      | Some b \<Rightarrow> discard (insert_cl h l b v))"

text \<open>\<^verbatim>\<open>erase(pos)\<close>\<close>

definition erase :: "'a heap \<Rightarrow> 'a CircularList \<Rightarrow> iterator \<Rightarrow> ('a, iterator) outcome" where
  "erase h l pos =
     (if empty_cl l then (h, l, Inl out_of_range)
      else
        let target = current pos in
        if target = temp_node l then (h, l, Inl out_of_range)
        else or_undefined h l (do {
          tp \<leftarrow> get_prev h target;
          tn \<leftarrow> get_next h target;
          h1 \<leftarrow> set_next h tp tn;
          tn' \<leftarrow> get_next h1 target;
          tp' \<leftarrow> get_prev h1 target;
          h2 \<leftarrow> set_prev h1 tn' tp';
          tn'' \<leftarrow> get_next h2 target;
          let nxt = iterator_ctor tn'' (temp_node l);
          h3 \<leftarrow> delete_Node h2 target;
          Some (h3, l\<lparr>size_field := size_field l - 1\<rparr>, nxt)
        }))"

definition pop_front :: "'a heap \<Rightarrow> 'a CircularList \<Rightarrow> ('a, unit) outcome" where
  "pop_front h l =
     (case begin_cl h l of
        None \<Rightarrow> (h, l, Inl undefined_behaviour)
      | Some b \<Rightarrow> discard (erase h l b))"

definition pop_back :: "'a heap \<Rightarrow> 'a CircularList \<Rightarrow> ('a, unit) outcome" where
  "pop_back h l =
     (case iter_dec h (end_cl l) of
        Inl e \<Rightarrow> (h, l, Inl e)
      | Inr b \<Rightarrow> discard (erase h l b))"

text \<open>
  \<^verbatim>\<open>front()\<close> and \<^verbatim>\<open>back()\<close> return a reference; the model returns the value read
  through it. Writing through the reference is \<open>set_value\<close> at the same node.
\<close>

definition front_cl :: "'a heap \<Rightarrow> 'a CircularList \<Rightarrow> error + 'a" where
  "front_cl h l =
     (if empty_cl l then Inl out_of_range
      else case do { first \<leftarrow> get_next h (temp_node l); get_value h first } of
             None \<Rightarrow> Inl undefined_behaviour
           | Some v \<Rightarrow> Inr v)"

definition back_cl :: "'a heap \<Rightarrow> 'a CircularList \<Rightarrow> error + 'a" where
  "back_cl h l =
     (if empty_cl l then Inl out_of_range
      else case do { last \<leftarrow> get_prev h (temp_node l); get_value h last } of
             None \<Rightarrow> Inl undefined_behaviour
           | Some v \<Rightarrow> Inr v)"

text \<open>
  \<^verbatim>\<open>clear()\<close> is \<^verbatim>\<open>while (!empty()) pop_front();\<close> in a \<^verbatim>\<open>noexcept\<close> function: an exception
  that leaves \<^verbatim>\<open>pop_front\<close> ends the program through \<^verbatim>\<open>std::terminate\<close>.
\<close>

definition in_noexcept :: "error \<Rightarrow> error" where
  "in_noexcept e = (case e of out_of_range \<Rightarrow> terminate_called | _ \<Rightarrow> e)"

function clear :: "'a heap \<Rightarrow> 'a CircularList \<Rightarrow> ('a, unit) outcome" where
  "clear h l =
     (if \<not> empty_cl l then
        (case pop_front h l of
           (h', l', Inl e) \<Rightarrow> (h', l', Inl (in_noexcept e))
         | (h', l', Inr u) \<Rightarrow> clear h' l')
      else (h, l, Inr ()))"
  by pat_completeness auto
termination
proof (relation "measure (\<lambda>(h, l). size_field l)")
  show "wf (measure (\<lambda>(h, l). size_field l))" by simp
next
  fix h :: "'a heap" and l :: "'a CircularList" and x y xa ya b
  assume ne: "\<not> empty_cl l" and x: "(x, y) = pop_front h l"
    and xa: "(xa, ya) = y" and ya: "ya = Inr b"
  from x xa ya have pf: "pop_front h l = (x, xa, Inr b)" by simp
  then obtain p it where er: "erase h l p = (x, xa, Inr it)"
    by (auto simp: pop_front_def discard_def split: option.splits prod.splits sum.splits)
  with ne have "size_field xa = size_field l - 1"
    by (auto simp: erase_def or_undefined_def Let_def
             split: if_splits option.splits prod.splits bind_splits)
  with ne show "((x, xa), (h, l)) \<in> measure (\<lambda>(h, l). size_field l)"
    by (simp add: empty_cl_def)
qed

declare clear.simps [simp del]

text \<open>
  The loop \<^verbatim>\<open>for (const auto& item : init) push_back(item);\<close> over the elements of a
  \<^verbatim>\<open>std::initializer_list\<close>.
\<close>

fun push_back_all :: "'a heap \<Rightarrow> 'a CircularList \<Rightarrow> 'a list \<Rightarrow> ('a, unit) outcome" where
  "push_back_all h l [] = (h, l, Inr ())"
| "push_back_all h l (item # init) =
     (case push_back h l item of
        (h', l', Inl e) \<Rightarrow> (h', l', Inl e)
      | (h', l', Inr u) \<Rightarrow> push_back_all h' l' init)"

text \<open>
  The loop \<^verbatim>\<open>for (const auto& item : other) push_back(item);\<close> over another container: it
  runs from \<^verbatim>\<open>other.begin()\<close> until the iterator equals \<^verbatim>\<open>other.end()\<close>, reads the element,
  appends it to this container and only then advances. It reads the heap that
  \<^verbatim>\<open>push_back\<close> has just changed, and it does not return when the iterator never meets the
  end; that is the value \<open>None\<close>.
\<close>

partial_function (option) push_back_range ::
  "'a heap \<Rightarrow> 'a CircularList \<Rightarrow> iterator \<Rightarrow> iterator \<Rightarrow> ('a, unit) outcome option" where
  "push_back_range h l it e =
     (if iter_neq it e then
        (case iter_deref h it of
           Inl er \<Rightarrow> Some (h, l, Inl er)
         | Inr item \<Rightarrow>
             (case push_back h l item of
                (h', l', Inl er) \<Rightarrow> Some (h', l', Inl er)
              | (h', l', Inr u) \<Rightarrow>
                  (case iter_inc h' it of
                     Inl er \<Rightarrow> Some (h', l', Inl er)
                   | Inr it' \<Rightarrow> push_back_range h' l' it' e)))
      else Some (h, l, Inr ()))"

declare push_back_range.simps [code]

text \<open>\<^verbatim>\<open>CircularList(std::initializer_list<T> init)\<close>\<close>

definition init_ctor :: "'a \<Rightarrow> 'a heap \<Rightarrow> 'a list \<Rightarrow> ('a, unit) outcome option" where
  "init_ctor d h init =
     (case default_ctor d h of None \<Rightarrow> None
      | Some (h0, l0) \<Rightarrow> Some (push_back_all h0 l0 init))"

text \<open>
  \<^verbatim>\<open>CircularList(const CircularList& other)\<close>. The result is the heap and the new object;
  \<open>None\<close> when the constructor does not return.
\<close>

definition copy_ctor :: "'a \<Rightarrow> 'a heap \<Rightarrow> 'a CircularList \<Rightarrow> ('a, unit) outcome option" where
  "copy_ctor d h other =
     (case default_ctor d h of None \<Rightarrow> None
      | Some (h0, l0) \<Rightarrow>
          (case begin_cl h0 other of
             None \<Rightarrow> Some (h0, l0, Inl undefined_behaviour)
           | Some b \<Rightarrow> push_back_range h0 l0 b (end_cl other)))"

text \<open>
  \<^verbatim>\<open>CircularList(CircularList&& other)\<close>: the new object and what is left of \<^verbatim>\<open>other\<close>.
\<close>

definition move_ctor :: "'a CircularList \<Rightarrow> 'a CircularList \<times> 'a CircularList" where
  "move_ctor other =
     (\<lparr>temp_node = temp_node other, size_field = size_field other\<rparr>,
      other\<lparr>temp_node := None, size_field := 0\<rparr>)"

text \<open>
  The assignment operators start with the guard \<^verbatim>\<open>if (this != &other)\<close>, which compares
  the addresses of two objects and not their members. The model therefore takes, besides
  the state of each object, the address at which the object lives: \<open>this\<close> for the
  assigned object \<open>l\<close> and \<open>that\<close> for \<^verbatim>\<open>other\<close>.
\<close>

type_synonym obj = nat

text \<open>
  Copy assignment \<^verbatim>\<open>operator=(const CircularList& other)\<close>: the heap and the assigned
  object; \<open>None\<close> when the loop does not return.
\<close>

definition copy_assign ::
  "'a heap \<Rightarrow> obj \<Rightarrow> 'a CircularList \<Rightarrow> obj \<Rightarrow> 'a CircularList \<Rightarrow>
   ('a, unit) outcome option" where
  "copy_assign h this l that other =
     (if this \<noteq> that then
        (case clear h l of
           (h0, l0, Inl e) \<Rightarrow> Some (h0, l0, Inl e)
         | (h0, l0, Inr u) \<Rightarrow>
             (case begin_cl h0 other of
                None \<Rightarrow> Some (h0, l0, Inl undefined_behaviour)
              | Some b \<Rightarrow> push_back_range h0 l0 b (end_cl other)))
      else Some (h, l, Inr ()))"

text \<open>
  Move assignment \<^verbatim>\<open>operator=(CircularList&& other)\<close>: the heap, the assigned object, and
  what is left of \<^verbatim>\<open>other\<close>. The function is \<^verbatim>\<open>noexcept\<close>. When both addresses are the
  same, \<open>l\<close> and \<open>other\<close> are the state of one object, which the call leaves as it is.
\<close>

definition move_assign ::
  "'a heap \<Rightarrow> obj \<Rightarrow> 'a CircularList \<Rightarrow> obj \<Rightarrow> 'a CircularList \<Rightarrow>
   'a heap \<times> 'a CircularList \<times> 'a CircularList \<times> (error + unit)" where
  "move_assign h this l that other =
     (if this \<noteq> that then
        (case clear h l of
           (h0, l0, Inl e) \<Rightarrow> (h0, l0, other, Inl e)
         | (h0, l0, Inr u) \<Rightarrow>
             (case delete_Node h0 (temp_node l0) of
                None \<Rightarrow> (h0, l0, other, Inl undefined_behaviour)
              | Some h1 \<Rightarrow>
                  (h1, l0\<lparr>temp_node := temp_node other, size_field := size_field other\<rparr>,
                   other\<lparr>temp_node := None, size_field := 0\<rparr>, Inr ())))
      else (h, l, other, Inr ()))"

text \<open>The destructor: \<^verbatim>\<open>clear(); delete temp_node_;\<close>\<close>

definition dtor :: "'a heap \<Rightarrow> 'a CircularList \<Rightarrow> error + 'a heap" where
  "dtor h l =
     (case clear h l of
        (h0, l0, Inl e) \<Rightarrow> Inl e
      | (h0, l0, Inr u) \<Rightarrow>
          (case delete_Node h0 (temp_node l0) of
             None \<Rightarrow> Inl undefined_behaviour
           | Some h1 \<Rightarrow> Inr h1))"

text \<open>The loop that the tests run to read a container front to back:
  \<^verbatim>\<open>for (auto it = list.begin(); it != list.end(); ++it) values.push_back(*it);\<close>\<close>

partial_function (option) collect_from ::
  "'a heap \<Rightarrow> 'a CircularList \<Rightarrow> iterator \<Rightarrow> 'a list \<Rightarrow> (error + 'a list) option" where
  "collect_from h l it values =
     (if iter_neq it (end_cl l) then
        (case iter_deref h it of
           Inl er \<Rightarrow> Some (Inl er)
         | Inr v \<Rightarrow>
             (case iter_inc h it of
                Inl er \<Rightarrow> Some (Inl er)
              | Inr it' \<Rightarrow> collect_from h l it' (values @ [v])))
      else Some (Inr values))"

declare collect_from.simps [code]

definition forward_iteration :: "'a heap \<Rightarrow> 'a CircularList \<Rightarrow> (error + 'a list) option" where
  "forward_iteration h l =
     (case begin_cl h l of
        None \<Rightarrow> Some (Inl undefined_behaviour)
      | Some b \<Rightarrow> collect_from h l b [])"

text \<open>And back to front:
  \<^verbatim>\<open>for (auto it = list.rbegin(); it != list.rend(); ++it) values.push_back(*it);\<close>\<close>

partial_function (option) rcollect_from ::
  "'a heap \<Rightarrow> 'a CircularList \<Rightarrow> reverse_iterator \<Rightarrow> 'a list \<Rightarrow> (error + 'a list) option" where
  "rcollect_from h l it values =
     (case rend h l of
        None \<Rightarrow> Some (Inl undefined_behaviour)
      | Some e \<Rightarrow>
          if \<not> rev_eq it e then
            (case rev_deref h it of
               Inl er \<Rightarrow> Some (Inl er)
             | Inr v \<Rightarrow>
                 (case rev_inc h it of
                    Inl er \<Rightarrow> Some (Inl er)
                  | Inr it' \<Rightarrow> rcollect_from h l it' (values @ [v])))
          else Some (Inr values))"

declare rcollect_from.simps [code]

definition reverse_iteration :: "'a heap \<Rightarrow> 'a CircularList \<Rightarrow> (error + 'a list) option" where
  "reverse_iteration h l = rcollect_from h l (rbegin l) []"

section \<open>The ring and what it represents\<close>

text \<open>
  \<open>chain nxt cs\<close>: each address of \<open>cs\<close> but the last is a live node whose link, read by
  \<open>nxt\<close>, is the address that follows it in \<open>cs\<close>.
\<close>

fun chain :: "(addr \<Rightarrow> ptr option) \<Rightarrow> addr list \<Rightarrow> bool" where
  "chain nxt (a # b # cs) = (nxt a = Some (Some b) \<and> chain nxt (b # cs))"
| "chain nxt cs = True"

definition next_of :: "'a heap \<Rightarrow> addr \<Rightarrow> ptr option" where
  "next_of h a = get_next h (Some a)"

definition prev_of :: "'a heap \<Rightarrow> addr \<Rightarrow> ptr option" where
  "prev_of h a = get_prev h (Some a)"

text \<open>
  \<open>ring h l as\<close>: the object \<open>l\<close> has a sentinel \<open>s\<close>; the sentinel and the nodes \<open>as\<close> are
  pairwise different; following \<^verbatim>\<open>next\<close> from the sentinel visits \<open>as\<close> in order and comes
  back to the sentinel; following \<^verbatim>\<open>prev\<close> visits them in the opposite order; and
  \<^verbatim>\<open>size_\<close> is the number of nodes other than the sentinel.
\<close>

definition ring :: "'a heap \<Rightarrow> 'a CircularList \<Rightarrow> addr list \<Rightarrow> bool" where
  "ring h l as =
     (case temp_node l of
        None \<Rightarrow> False
      | Some s \<Rightarrow>
          distinct (s # as) \<and>
          chain (next_of h) (s # as @ [s]) \<and>
          chain (prev_of h) (s # rev as @ [s]) \<and>
          size_field l = length as)"

text \<open>
  The nodes that a walk along \<^verbatim>\<open>next\<close> visits from \<open>a\<close> until it meets the sentinel \<open>s\<close>.
  The walk gives up after \<open>n\<close> steps and at a node that has no successor.
\<close>

fun walk :: "nat \<Rightarrow> (addr \<Rightarrow> ptr option) \<Rightarrow> addr \<Rightarrow> addr \<Rightarrow> addr list" where
  "walk 0 nxt s a = []"
| "walk (Suc n) nxt s a =
     (if a = s then []
      else a # (case nxt a of Some (Some b) \<Rightarrow> walk n nxt s b | _ \<Rightarrow> []))"

text \<open>
  The nodes reachable from the sentinel of \<open>l\<close>: the walk from the sentinel's successor,
  with as many steps as the heap has cells. When \<open>l\<close> is a ring with the nodes \<open>as\<close>, this
  is \<open>as\<close>, so a container has at most one ring.
\<close>

definition nodes_of :: "'a heap \<Rightarrow> 'a CircularList \<Rightarrow> addr list" where
  "nodes_of h l =
     (case temp_node l of
        None \<Rightarrow> []
      | Some s \<Rightarrow>
          (case next_of h s of
             Some (Some a) \<Rightarrow> walk (length h) (next_of h) s a
           | _ \<Rightarrow> []))"

text \<open>The nodes of the ring, the sentinel first.\<close>

definition ring_nodes :: "'a CircularList \<Rightarrow> addr list \<Rightarrow> ptr list" where
  "ring_nodes l as = temp_node l # map Some as"

text \<open>\<^verbatim>\<open>n.next.prev == n\<close> and \<^verbatim>\<open>n.prev.next == n\<close> for the node at \<open>p\<close>.\<close>

definition links_agree :: "'a heap \<Rightarrow> ptr \<Rightarrow> bool" where
  "links_agree h p =
     (do { q \<leftarrow> get_next h p; get_prev h q } = Some p \<and>
      do { q \<leftarrow> get_prev h p; get_next h q } = Some p)"

text \<open>The values stored in the nodes \<open>as\<close>, and the list \<open>xs\<close> that a ring represents.\<close>

definition contents :: "'a heap \<Rightarrow> addr list \<Rightarrow> 'a option list" where
  "contents h as = map (\<lambda>a. get_value h (Some a)) as"

definition repr :: "'a heap \<Rightarrow> 'a CircularList \<Rightarrow> addr list \<Rightarrow> 'a list \<Rightarrow> bool" where
  "repr h l as xs = (ring h l as \<and> contents h as = map Some xs)"

text \<open>
  The node at position \<open>j\<close> of a ring: the \<open>j\<close>-th element, and the sentinel for the
  position after the last element. \<open>position l as j\<close> is the iterator there.
\<close>

definition node_pos :: "'a CircularList \<Rightarrow> addr list \<Rightarrow> nat \<Rightarrow> ptr" where
  "node_pos l as j = (if j < length as then Some (as ! j) else temp_node l)"

definition position :: "'a CircularList \<Rightarrow> addr list \<Rightarrow> nat \<Rightarrow> iterator" where
  "position l as j = iterator_ctor (node_pos l as j) (temp_node l)"

text \<open>The node before position \<open>j\<close>: the sentinel comes before the first element.\<close>

definition pred_pos :: "'a CircularList \<Rightarrow> addr list \<Rightarrow> nat \<Rightarrow> ptr" where
  "pred_pos l as j = (if j = 0 then temp_node l else Some (as ! (j - 1)))"

text \<open>
  The position that a decrement reaches from position \<open>j\<close> of a list of \<open>n\<close> elements:
  the last element, not the sentinel, comes before the first.
\<close>

definition dec_index :: "nat \<Rightarrow> nat \<Rightarrow> nat" where
  "dec_index n j = (if j = 0 then n - 1 else j - 1)"

text \<open>A list with \<open>x\<close> put in front of position \<open>j\<close>, and with position \<open>j\<close> removed.\<close>

definition insert_at :: "nat \<Rightarrow> 'b \<Rightarrow> 'b list \<Rightarrow> 'b list" where
  "insert_at j x xs = take j xs @ x # drop j xs"

definition remove_at :: "nat \<Rightarrow> 'b list \<Rightarrow> 'b list" where
  "remove_at j xs = take j xs @ drop (Suc j) xs"

text \<open>The addresses that a ring occupies: the sentinel and the nodes.\<close>

definition cells :: "'a CircularList \<Rightarrow> addr list \<Rightarrow> addr set" where
  "cells l as = set_option (temp_node l) \<union> set as"

text \<open>
  \<open>frame h h' F\<close>: from \<open>h\<close> to \<open>h'\<close> no cell was lost, and the cells of \<open>h\<close> outside
  \<open>F\<close> are the same in \<open>h'\<close>.
\<close>

definition frame :: "'a heap \<Rightarrow> 'a heap \<Rightarrow> addr set \<Rightarrow> bool" where
  "frame h h' F =
     (length h \<le> length h' \<and>
      (\<forall>a. a < length h \<and> a \<notin> F \<longrightarrow> node_at h' (Some a) = node_at h (Some a)))"

section \<open>Sequences of operations\<close>

text \<open>\<open>n\<close> increments in a row, stopping at the first one that fails.\<close>

primrec advance :: "nat \<Rightarrow> 'a heap \<Rightarrow> iterator \<Rightarrow> error + iterator" where
  "advance 0 h it = Inr it"
| "advance (Suc n) h it =
     (case iter_inc h it of Inl e \<Rightarrow> Inl e | Inr it' \<Rightarrow> advance n h it')"


text \<open>The iterator that a caller gets from \<^verbatim>\<open>begin()\<close> by \<open>n\<close> increments.\<close>

definition nth_iterator :: "'a heap \<Rightarrow> 'a CircularList \<Rightarrow> nat \<Rightarrow> error + iterator" where
  "nth_iterator h l n =
     (case begin_cl h l of None \<Rightarrow> Inl undefined_behaviour | Some b \<Rightarrow> advance n h b)"

text \<open>\<^verbatim>\<open>*it = v\<close>: a write through the reference that \<^verbatim>\<open>operator*\<close> returns.\<close>

definition iter_assign :: "'a heap \<Rightarrow> iterator \<Rightarrow> 'a \<Rightarrow> error + 'a heap" where
  "iter_assign h it v =
     (if current it = it_temp_node it then Inl out_of_range
      else case set_value h (current it) v of
             None \<Rightarrow> Inl undefined_behaviour
           | Some h' \<Rightarrow> Inr h')"

text \<open>
  The calls that change a container, with positions given by the number of increments
  from \<^verbatim>\<open>begin()\<close>. The calls that only read (\<^verbatim>\<open>front\<close>, \<^verbatim>\<open>back\<close>, \<^verbatim>\<open>size\<close>, \<^verbatim>\<open>empty\<close>,
  \<^verbatim>\<open>begin\<close>, \<^verbatim>\<open>end\<close> and the iterator operators) return no new state.
\<close>

datatype 'a operation =
    Push_back 'a
  | Push_front 'a
  | Insert nat 'a
  | Emplace nat 'a
  | Erase nat
  | Pop_front
  | Pop_back
  | Clear
  | Assign nat 'a

fun apply_op :: "'a heap \<Rightarrow> 'a CircularList \<Rightarrow> 'a operation \<Rightarrow> ('a, unit) outcome" where
  "apply_op h l (Push_back v) = push_back h l v"
| "apply_op h l (Push_front v) = push_front h l v"
| "apply_op h l (Insert n v) =
     (case nth_iterator h l n of
        Inl e \<Rightarrow> (h, l, Inl e)
      | Inr it \<Rightarrow> discard (insert_cl h l it v))"
| "apply_op h l (Emplace n v) =
     (case nth_iterator h l n of
        Inl e \<Rightarrow> (h, l, Inl e)
      | Inr it \<Rightarrow> discard (emplace h l it v))"
| "apply_op h l (Erase n) =
     (case nth_iterator h l n of
        Inl e \<Rightarrow> (h, l, Inl e)
      | Inr it \<Rightarrow> discard (erase h l it))"
| "apply_op h l Pop_front = pop_front h l"
| "apply_op h l Pop_back = pop_back h l"
| "apply_op h l Clear = clear h l"
| "apply_op h l (Assign n v) =
     (case nth_iterator h l n of
        Inl e \<Rightarrow> (h, l, Inl e)
      | Inr it \<Rightarrow>
          (case iter_assign h it v of
             Inl e \<Rightarrow> (h, l, Inl e)
           | Inr h' \<Rightarrow> (h', l, Inr ())))"

text \<open>
  A sequence of calls on one container. The caller catches an exception and goes on with
  the state that the failed call left.
\<close>

fun run :: "'a heap \<Rightarrow> 'a CircularList \<Rightarrow> 'a operation list \<Rightarrow> 'a heap \<times> 'a CircularList" where
  "run h l [] = (h, l)"
| "run h l (x # ops) = (case apply_op h l x of (h', l', r) \<Rightarrow> run h' l' ops)"

text \<open>What a call does to the sequence of elements; a call that raises leaves it alone.\<close>

fun abs_op :: "'a operation \<Rightarrow> 'a list \<Rightarrow> 'a list" where
  "abs_op (Push_back v) xs = xs @ [v]"
| "abs_op (Push_front v) xs = v # xs"
| "abs_op (Insert n v) xs = (if n \<le> length xs then insert_at n v xs else xs)"
| "abs_op (Emplace n v) xs = (if n \<le> length xs then insert_at n v xs else xs)"
| "abs_op (Erase n) xs = (if n < length xs then remove_at n xs else xs)"
| "abs_op Pop_front xs = tl xs"
| "abs_op Pop_back xs = butlast xs"
| "abs_op Clear xs = []"
| "abs_op (Assign n v) xs = (if n < length xs then xs[n := v] else xs)"

text \<open>Whether a call raises the out-of-range error on a list with the elements \<open>xs\<close>.\<close>

fun abs_raises :: "'a operation \<Rightarrow> 'a list \<Rightarrow> bool" where
  "abs_raises (Push_back v) xs = False"
| "abs_raises (Push_front v) xs = False"
| "abs_raises (Insert n v) xs = (length xs < n)"
| "abs_raises (Emplace n v) xs = (length xs < n)"
| "abs_raises (Erase n) xs = (length xs \<le> n)"
| "abs_raises Pop_front xs = (xs = [])"
| "abs_raises Pop_back xs = (xs = [])"
| "abs_raises Clear xs = False"
| "abs_raises (Assign n v) xs = (length xs \<le> n)"

text \<open>
  The invariant in the words of the specification: the sentinel and the nodes \<open>as\<close> form
  one ring, \<^verbatim>\<open>n.next.prev == n\<close> and \<^verbatim>\<open>n.prev.next == n\<close> for each of them, and \<^verbatim>\<open>size_\<close> is the
  number of nodes other than the sentinel.
\<close>

definition ring_invariant :: "'a heap \<Rightarrow> 'a CircularList \<Rightarrow> addr list \<Rightarrow> bool" where
  "ring_invariant h l as =
     (ring h l as \<and> list_all (links_agree h) (ring_nodes l as) \<and> size_cl l = length as)"

section \<open>Programs with several containers\<close>

text \<open>
  A program keeps its containers in objects. An object is known by its address, which
  is its index in the list of objects; the entry is \<open>None\<close> once the destructor has run.
\<close>

type_synonym 'a objects = "'a CircularList option list"

definition object :: "'a objects \<Rightarrow> obj \<Rightarrow> 'a CircularList option" where
  "object os i = (if i < length os then os ! i else None)"

text \<open>
  The calls of a program: the four constructors, the destructor, the two assignment
  operators, and the calls of the previous section on the object at an address. A
  constructor puts the new object at the next free address. The positions of \<open>Member\<close>
  calls are counted from \<^verbatim>\<open>begin()\<close> of the object that the call is made on, so the
  iterator that such a call passes always belongs to that object. A write through the
  reference that \<^verbatim>\<open>front()\<close> or \<^verbatim>\<open>back()\<close> returns is the \<open>Assign\<close> call at the first or the
  last position. The member functions that only read change no state and are not calls
  of a program.
\<close>

datatype 'a call =
    Construct
  | Construct_init "'a list"
  | Construct_copy obj
  | Construct_move obj
  | Destroy obj
  | Copy_assign obj obj
  | Move_assign obj obj
  | Member obj "'a operation"

text \<open>
  The caller catches \<^verbatim>\<open>std::out_of_range\<close> and goes on with the state that the call left.
  After undefined behaviour or \<^verbatim>\<open>std::terminate\<close> there is no state to go on with.
\<close>

definition proceed :: "error + unit \<Rightarrow> 's \<Rightarrow> 's option" where
  "proceed r s =
     (case r of
        Inr u \<Rightarrow> Some s
      | Inl e \<Rightarrow> if e = out_of_range then Some s else None)"

text \<open>
  One call. The result is \<open>None\<close> when the program has no state to go on with: the call
  names an address where no object lives, it has undefined behaviour or ends in
  \<^verbatim>\<open>std::terminate\<close>, or it does not return. A constructor that raises leaves no object.
\<close>

fun step :: "'a \<Rightarrow> 'a heap \<times> 'a objects \<Rightarrow> 'a call \<Rightarrow> ('a heap \<times> 'a objects) option" where
  "step d (h, os) Construct =
     (case default_ctor d h of
        None \<Rightarrow> None
      | Some (h', l) \<Rightarrow> Some (h', os @ [Some l]))"
| "step d (h, os) (Construct_init init) =
     (case init_ctor d h init of
        None \<Rightarrow> None
      | Some (h', l, Inl e) \<Rightarrow> proceed (Inl e) (h', os)
      | Some (h', l, Inr u) \<Rightarrow> Some (h', os @ [Some l]))"
| "step d (h, os) (Construct_copy j) =
     (case object os j of
        None \<Rightarrow> None
      | Some other \<Rightarrow>
          (case copy_ctor d h other of
             None \<Rightarrow> None
           | Some (h', l, Inl e) \<Rightarrow> proceed (Inl e) (h', os)
           | Some (h', l, Inr u) \<Rightarrow> Some (h', os @ [Some l])))"
| "step d (h, os) (Construct_move j) =
     (case object os j of
        None \<Rightarrow> None
      | Some other \<Rightarrow>
          (case move_ctor other of
             (l, other') \<Rightarrow> Some (h, os[j := Some other'] @ [Some l])))"
| "step d (h, os) (Destroy i) =
     (case object os i of
        None \<Rightarrow> None
      | Some l \<Rightarrow>
          (case dtor h l of
             Inl e \<Rightarrow> None
           | Inr h' \<Rightarrow> Some (h', os[i := None])))"
| "step d (h, os) (Copy_assign i j) =
     (case object os i of
        None \<Rightarrow> None
      | Some l \<Rightarrow>
          (case object os j of
             None \<Rightarrow> None
           | Some other \<Rightarrow>
               (case copy_assign h i l j other of
                  None \<Rightarrow> None
                | Some (h', l', r) \<Rightarrow> proceed r (h', os[i := Some l']))))"
| "step d (h, os) (Move_assign i j) =
     (case object os i of
        None \<Rightarrow> None
      | Some l \<Rightarrow>
          (case object os j of
             None \<Rightarrow> None
           | Some other \<Rightarrow>
               (case move_assign h i l j other of
                  (h', l', other', r) \<Rightarrow>
                    proceed r (h', os[j := Some other', i := Some l']))))"
| "step d (h, os) (Member i x) =
     (case object os i of
        None \<Rightarrow> None
      | Some l \<Rightarrow>
          (case apply_op h l x of
             (h', l', r) \<Rightarrow> proceed r (h', os[i := Some l'])))"

text \<open>A sequence of calls, as long as there is a state to go on with.\<close>

fun exec :: "'a \<Rightarrow> 'a heap \<times> 'a objects \<Rightarrow> 'a call list \<Rightarrow> ('a heap \<times> 'a objects) option" where
  "exec d s [] = Some s"
| "exec d s (c # cs) = (case step d s c of None \<Rightarrow> None | Some s' \<Rightarrow> exec d s' cs)"

text \<open>
  The state in which a move leaves its source: no sentinel and size 0. Such an object is
  not a container; the specification allows only to destroy it or to assign to it.
\<close>

definition moved_from :: "'a CircularList \<Rightarrow> bool" where
  "moved_from l = (temp_node l = None \<and> size_field l = 0)"

text \<open>
  An object holds a ring when it is a ring with the nodes reachable from its sentinel;
  its footprint is the set of cells of that ring.
\<close>

definition holds_ring :: "'a heap \<Rightarrow> 'a CircularList \<Rightarrow> bool" where
  "holds_ring h l = ring h l (nodes_of h l)"

definition footprint :: "'a heap \<Rightarrow> 'a CircularList \<Rightarrow> addr set" where
  "footprint h l = cells l (nodes_of h l)"

text \<open>
  The state of a program is sound when every object holds a ring or was moved from, and
  no cell belongs to two objects. A program that has not built a container yet is in a
  sound state, whatever the heap.
\<close>

definition sound :: "'a heap \<Rightarrow> 'a objects \<Rightarrow> bool" where
  "sound h os =
     ((\<forall>i l. object os i = Some l \<longrightarrow> moved_from l \<or> holds_ring h l) \<and>
      (\<forall>i j l other. i \<noteq> j \<and> object os i = Some l \<and> object os j = Some other \<longrightarrow>
         footprint h l \<inter> footprint h other = {}))"

text \<open>
  The calls within the scope of the specification: each object that the call names is
  alive and holds a sentinel, except that an object without a sentinel may be destroyed
  and may be the target of a move assignment.
\<close>

definition live :: "'a objects \<Rightarrow> obj \<Rightarrow> bool" where
  "live os i = (object os i \<noteq> None)"

definition usable :: "'a objects \<Rightarrow> obj \<Rightarrow> bool" where
  "usable os i = (case object os i of None \<Rightarrow> False | Some l \<Rightarrow> temp_node l \<noteq> None)"

fun in_scope :: "'a objects \<Rightarrow> 'a call \<Rightarrow> bool" where
  "in_scope os Construct = True"
| "in_scope os (Construct_init init) = True"
| "in_scope os (Construct_copy j) = usable os j"
| "in_scope os (Construct_move j) = usable os j"
| "in_scope os (Destroy i) = live os i"
| "in_scope os (Copy_assign i j) = (usable os i \<and> usable os j)"
| "in_scope os (Move_assign i j) = (live os i \<and> usable os j)"
| "in_scope os (Member i x) = usable os i"

section \<open>Example states\<close>

text \<open>
  The heap and the object that \<^verbatim>\<open>CircularList<unsigned> l;\<close> leaves in an empty heap, and
  those that \<^verbatim>\<open>CircularList<unsigned> l{10, 20, 30};\<close> leaves there. The sentinel is at
  address 0 and the elements are at addresses 1, 2 and 3.
\<close>

definition heap_empty :: "nat heap" where
  "heap_empty = [Some \<lparr>node_value = 0, node_next = Some 0, node_prev = Some 0\<rparr>]"

definition list_empty :: "nat CircularList" where
  "list_empty = \<lparr>temp_node = Some 0, size_field = 0\<rparr>"

definition heap123 :: "nat heap" where
  "heap123 =
     [Some \<lparr>node_value = 0, node_next = Some 1, node_prev = Some 3\<rparr>,
      Some \<lparr>node_value = 10, node_next = Some 2, node_prev = Some 0\<rparr>,
      Some \<lparr>node_value = 20, node_next = Some 3, node_prev = Some 1\<rparr>,
      Some \<lparr>node_value = 30, node_next = Some 0, node_prev = Some 2\<rparr>]"

definition list123 :: "nat CircularList" where
  "list123 = \<lparr>temp_node = Some 0, size_field = 3\<rparr>"

text \<open>
  The heap that \<^verbatim>\<open>CircularList<unsigned> c(l);\<close> leaves when \<^verbatim>\<open>l\<close> is the list above: the
  copy has its sentinel at address 4 and its elements at 5, 6 and 7.
\<close>

definition heap_two :: "nat heap" where
  "heap_two = heap123 @
     [Some \<lparr>node_value = 0, node_next = Some 5, node_prev = Some 7\<rparr>,
      Some \<lparr>node_value = 10, node_next = Some 6, node_prev = Some 4\<rparr>,
      Some \<lparr>node_value = 20, node_next = Some 7, node_prev = Some 5\<rparr>,
      Some \<lparr>node_value = 30, node_next = Some 4, node_prev = Some 6\<rparr>]"

definition list_copy :: "nat CircularList" where
  "list_copy = \<lparr>temp_node = Some 4, size_field = 3\<rparr>"

text \<open>
  Two empty containers \<^verbatim>\<open>a\<close> and \<^verbatim>\<open>c\<close> built one after the other in an empty heap: the
  sentinel of \<^verbatim>\<open>a\<close> is at address 0, as in \<open>list_empty\<close>, and that of \<^verbatim>\<open>c\<close> at address 1.
  \<open>heap_crossed\<close> and \<open>list_crossed\<close> are the heap and the object \<^verbatim>\<open>a\<close> after
  \<^verbatim>\<open>a.emplace(c.end(), 7)\<close>.
\<close>

definition heap_pair :: "nat heap" where
  "heap_pair =
     [Some \<lparr>node_value = 0, node_next = Some 0, node_prev = Some 0\<rparr>,
      Some \<lparr>node_value = 0, node_next = Some 1, node_prev = Some 1\<rparr>]"

definition list_other :: "nat CircularList" where
  "list_other = \<lparr>temp_node = Some 1, size_field = 0\<rparr>"

definition heap_crossed :: "nat heap" where
  "heap_crossed =
     [Some \<lparr>node_value = 0, node_next = Some 0, node_prev = Some 0\<rparr>,
      Some \<lparr>node_value = 0, node_next = Some 2, node_prev = Some 2\<rparr>,
      Some \<lparr>node_value = 7, node_next = Some 1, node_prev = Some 1\<rparr>]"

definition list_crossed :: "nat CircularList" where
  "list_crossed = \<lparr>temp_node = Some 0, size_field = 1\<rparr>"

text \<open>
  The heap and the object \<^verbatim>\<open>l\<close> after \<^verbatim>\<open>l.erase(c.begin())\<close>, for the list \<^verbatim>\<open>l\<close> and its
  copy \<^verbatim>\<open>c\<close> of \<open>heap_two\<close>.
\<close>

definition heap_torn :: "nat heap" where
  "heap_torn =
     [Some \<lparr>node_value = 0, node_next = Some 1, node_prev = Some 3\<rparr>,
      Some \<lparr>node_value = 10, node_next = Some 2, node_prev = Some 0\<rparr>,
      Some \<lparr>node_value = 20, node_next = Some 3, node_prev = Some 1\<rparr>,
      Some \<lparr>node_value = 30, node_next = Some 0, node_prev = Some 2\<rparr>,
      Some \<lparr>node_value = 0, node_next = Some 6, node_prev = Some 7\<rparr>,
      None,
      Some \<lparr>node_value = 20, node_next = Some 7, node_prev = Some 4\<rparr>,
      Some \<lparr>node_value = 30, node_next = Some 4, node_prev = Some 6\<rparr>]"

definition list_torn :: "nat CircularList" where
  "list_torn = \<lparr>temp_node = Some 0, size_field = 2\<rparr>"

section \<open>Facts about the memory model\<close>

lemma node_at_Some_less: "node_at h (Some a) = Some n \<Longrightarrow> a < length h"
  by (simp add: node_at_def split: if_splits)

lemma node_at_None [simp]: "node_at h None = None"
  by (simp add: node_at_def)

lemma node_at_update:
  "node_at (h[a := x]) (Some b) = (if b = a \<and> a < length h then x else node_at h (Some b))"
  by (simp add: node_at_def)

lemma node_at_append:
  "node_at (h @ [x]) (Some b) = (if b = length h then x else node_at h (Some b))"
  by (simp add: node_at_def nth_append)

lemma update_node_Some:
  "node_at h (Some a) = Some n \<Longrightarrow> update_node h (Some a) f = Some (h[a := Some (f n)])"
  by (simp add: update_node_def)

section \<open>Facts about chains\<close>

lemma chain_append: "chain nxt (xs @ a # ys) = (chain nxt (xs @ [a]) \<and> chain nxt (a # ys))"
proof (induction xs)
  case Nil
  show ?case by simp
next
  case (Cons x xs)
  then show ?case by (cases xs) auto
qed

lemma chain_cong:
  "(\<And>a. a \<in> set (butlast cs) \<Longrightarrow> nxt' a = nxt a) \<Longrightarrow> chain nxt' cs = chain nxt cs"
  by (induction nxt cs rule: chain.induct) auto

lemma chain_link:
  assumes "chain nxt (A @ B)" "A \<noteq> []" "B \<noteq> []"
  shows "nxt (last A) = Some (Some (hd B))"
proof -
  from assms obtain A' p where A: "A = A' @ [p]" by (metis rev_exhaust)
  from assms obtain t B' where B: "B = t # B'" by (cases B) auto
  from assms(1) have "chain nxt (A' @ p # t # B')" by (simp add: A B)
  then have "chain nxt (p # t # B')" using chain_append [of nxt A' p "t # B'"] by simp
  then show ?thesis by (simp add: A B)
qed

lemma chain_insert:
  assumes ch: "chain nxt (A @ B)" and ne: "A \<noteq> []" "B \<noteq> []"
    and l1: "nxt' (last A) = Some (Some x)" and l2: "nxt' x = Some (Some (hd B))"
    and same: "\<And>a. a \<in> set (butlast A) \<union> set (butlast B) \<Longrightarrow> nxt' a = nxt a"
  shows "chain nxt' (A @ x # B)"
proof -
  from ne obtain A' p where A: "A = A' @ [p]" by (metis rev_exhaust)
  from ne obtain t B' where B: "B = t # B'" by (cases B) auto
  from ch have "chain nxt (A' @ p # t # B')" by (simp add: A B)
  then have old: "chain nxt (A' @ [p])" "chain nxt (t # B')"
    using chain_append [of nxt A' p "t # B'"] chain_append [of nxt "[p]" t B'] by auto
  have "chain nxt' (A' @ [p]) = chain nxt (A' @ [p])"
    by (rule chain_cong) (simp add: same A)
  moreover have "chain nxt' (t # B') = chain nxt (t # B')"
    by (rule chain_cong) (simp add: same B)
  ultimately have new: "chain nxt' (A' @ [p])" "chain nxt' (t # B')" using old by auto
  have "chain nxt' (p # x # t # B')" using l1 l2 new(2) by (simp add: A B)
  with new(1) have "chain nxt' (A' @ p # x # t # B')"
    using chain_append [of nxt' A' p "x # t # B'"] by simp
  then show ?thesis by (simp add: A B)
qed

lemma chain_remove:
  assumes ch: "chain nxt (A @ t # B)" and ne: "A \<noteq> []" "B \<noteq> []"
    and l1: "nxt' (last A) = Some (Some (hd B))"
    and same: "\<And>a. a \<in> set (butlast A) \<union> set (butlast B) \<Longrightarrow> nxt' a = nxt a"
  shows "chain nxt' (A @ B)"
proof -
  from ne obtain A' p where A: "A = A' @ [p]" by (metis rev_exhaust)
  from ne obtain q B' where B: "B = q # B'" by (cases B) auto
  from ch have "chain nxt (A' @ p # t # q # B')" by (simp add: A B)
  then have old: "chain nxt (A' @ [p])" "chain nxt (q # B')"
    using chain_append [of nxt A' p "t # q # B'"] chain_append [of nxt "[p, t]" q B'] by auto
  have "chain nxt' (A' @ [p]) = chain nxt (A' @ [p])"
    by (rule chain_cong) (simp add: same A)
  moreover have "chain nxt' (q # B') = chain nxt (q # B')"
    by (rule chain_cong) (simp add: same B)
  ultimately have new: "chain nxt' (A' @ [p])" "chain nxt' (q # B')" using old by auto
  have "chain nxt' (p # q # B')" using l1 new(2) by (simp add: A B)
  with new(1) have "chain nxt' (A' @ p # q # B')"
    using chain_append [of nxt' A' p "q # B'"] by simp
  then show ?thesis by (simp add: A B)
qed

section \<open>The pointer updates of emplace and erase\<close>

text \<open>
  What \<^verbatim>\<open>emplace\<close> and \<^verbatim>\<open>erase\<close> do to the heap when the nodes they touch are live, whatever
  else the heap holds: the result, and each link and value of the new heap.
\<close>

lemma set_next_Some:
  "node_at h (Some a) = Some n \<Longrightarrow> set_next h (Some a) q = Some (h[a := Some (n\<lparr>node_next := q\<rparr>)])"
  by (simp add: set_next_def update_node_Some)

lemma set_prev_Some:
  "node_at h (Some a) = Some n \<Longrightarrow> set_prev h (Some a) q = Some (h[a := Some (n\<lparr>node_prev := q\<rparr>)])"
  by (simp add: set_prev_def update_node_Some)

lemma get_Some:
  "node_at h p = Some n \<Longrightarrow> get_next h p = Some (node_next n)"
  "node_at h p = Some n \<Longrightarrow> get_prev h p = Some (node_prev n)"
  "node_at h p = Some n \<Longrightarrow> get_value h p = Some (node_value n)"
  by (simp_all add: get_next_def get_prev_def get_value_def)

lemma emplace_fields:
  assumes t: "node_at h (Some t) = Some nt" and tp: "node_prev nt = Some p"
    and p: "node_at h (Some p) = Some np" and pos: "current pos = Some t"
  shows "\<exists>h'. emplace h l pos v =
           (h', l\<lparr>size_field := size_field l + 1\<rparr>, Inr (iterator_ctor (Some (length h)) (temp_node l))) \<and>
         length h' = Suc (length h) \<and>
         (\<forall>a. next_of h' a = (if a = p then Some (Some (length h))
                              else if a = length h then Some (Some t) else next_of h a)) \<and>
         (\<forall>a. prev_of h' a = (if a = t then Some (Some (length h))
                              else if a = length h then Some (Some p) else prev_of h a)) \<and>
         (\<forall>a. get_value h' (Some a) = (if a = length h then Some v else get_value h (Some a))) \<and>
         (\<forall>a. a \<noteq> p \<and> a \<noteq> t \<and> a \<noteq> length h \<longrightarrow> node_at h' (Some a) = node_at h (Some a))"
proof -
  from t p have lt: "t < length h" "p < length h" by (auto dest: node_at_Some_less)
  define n0 :: "'a Node" where "n0 = \<lparr>node_value = v, node_next = None, node_prev = None\<rparr>"
  define h1 where "h1 = h @ [Some n0]"
  define h2 where "h2 = h1[length h := Some (n0\<lparr>node_next := Some t\<rparr>)]"
  define h3 where "h3 = h2[length h := Some (n0\<lparr>node_next := Some t, node_prev := Some p\<rparr>)]"
  define h4 where "h4 = h3[p := Some (np\<lparr>node_next := Some (length h)\<rparr>)]"
  define nt4 where "nt4 = (if t = p then np\<lparr>node_next := Some (length h)\<rparr> else nt)"
  define h5 where "h5 = h4[t := Some (nt4\<lparr>node_prev := Some (length h)\<rparr>)]"
  have s1: "new_Node h v = (h1, Some (length h))" by (simp add: new_Node_def h1_def n0_def)
  have "node_at h1 (Some (length h)) = Some n0" by (simp add: h1_def node_at_append)
  then have s2: "set_next h1 (Some (length h)) (Some t) = Some h2"
    by (simp add: set_next_Some h2_def)
  have "node_at h2 (Some t) = Some nt" using t lt
    by (simp add: h2_def h1_def node_at_update node_at_append)
  then have s3: "get_prev h2 (Some t) = Some (Some p)" using tp by (simp add: get_Some)
  have "node_at h2 (Some (length h)) = Some (n0\<lparr>node_next := Some t\<rparr>)"
    by (simp add: h2_def h1_def node_at_update node_at_append)
  then have s4: "set_prev h2 (Some (length h)) (Some p) = Some h3"
    by (simp add: set_prev_Some h3_def)
  have "node_at h3 (Some t) = Some nt" using t lt
    by (simp add: h3_def h2_def h1_def node_at_update node_at_append)
  then have s5: "get_prev h3 (Some t) = Some (Some p)" using tp by (simp add: get_Some)
  have "node_at h3 (Some p) = Some np" using p lt
    by (simp add: h3_def h2_def h1_def node_at_update node_at_append)
  then have s6: "set_next h3 (Some p) (Some (length h)) = Some h4"
    by (simp add: set_next_Some h4_def)
  have "node_at h4 (Some t) = Some nt4" using t p lt
    by (simp add: h4_def h3_def h2_def h1_def node_at_update node_at_append nt4_def)
  then have s7: "set_prev h4 (Some t) (Some (length h)) = Some h5"
    by (simp add: set_prev_Some h5_def)
  have em: "emplace h l pos v =
      (h5, l\<lparr>size_field := size_field l + 1\<rparr>, Inr (iterator_ctor (Some (length h)) (temp_node l)))"
    by (simp add: emplace_def s1 pos s2 s3 s4 s5 s6 s7 or_undefined_def)
  have len: "length h5 = Suc (length h)"
    by (simp add: h5_def h4_def h3_def h2_def h1_def)
  have nx: "next_of h5 a = (if a = p then Some (Some (length h))
                              else if a = length h then Some (Some t) else next_of h a)" for a
    using lt tp t p
    by (auto simp: next_of_def get_next_def h5_def h4_def h3_def h2_def h1_def nt4_def
        node_at_update node_at_append)
  have pv: "prev_of h5 a = (if a = t then Some (Some (length h))
                              else if a = length h then Some (Some p) else prev_of h a)" for a
    using lt tp t p
    by (auto simp: prev_of_def get_prev_def h5_def h4_def h3_def h2_def h1_def nt4_def
        node_at_update node_at_append)
  have vl: "get_value h5 (Some a) = (if a = length h then Some v else get_value h (Some a))" for a
    using lt tp t p
    by (auto simp: get_value_def h5_def h4_def h3_def h2_def h1_def nt4_def n0_def
        node_at_update node_at_append)
  have fr: "node_at h5 (Some a) = node_at h (Some a)"
    if "a \<noteq> p \<and> a \<noteq> t \<and> a \<noteq> length h" for a
    using that by (simp add: h5_def h4_def h3_def h2_def h1_def node_at_update node_at_append)
  from em len nx pv vl fr show ?thesis by blast
qed

lemma delete_Node_Some:
  "node_at h (Some a) = Some n \<Longrightarrow> delete_Node h (Some a) = Some (h[a := None])"
  by (simp add: delete_Node_def)

lemma erase_fields:
  assumes ne: "\<not> empty_cl l" and pos: "current pos = Some t" and ts: "Some t \<noteq> temp_node l"
    and t: "node_at h (Some t) = Some nt"
    and tp: "node_prev nt = Some p" and tn: "node_next nt = Some q"
    and p: "node_at h (Some p) = Some np" and q: "node_at h (Some q) = Some nq"
    and pt: "p \<noteq> t" and qt: "q \<noteq> t"
  shows "\<exists>h'. erase h l pos =
           (h', l\<lparr>size_field := size_field l - 1\<rparr>, Inr (iterator_ctor (Some q) (temp_node l))) \<and>
         length h' = length h \<and>
         (\<forall>a. next_of h' a = (if a = t then None
                              else if a = p then Some (Some q) else next_of h a)) \<and>
         (\<forall>a. prev_of h' a = (if a = t then None
                              else if a = q then Some (Some p) else prev_of h a)) \<and>
         (\<forall>a. get_value h' (Some a) = (if a = t then None else get_value h (Some a))) \<and>
         (\<forall>a. a \<noteq> p \<and> a \<noteq> q \<and> a \<noteq> t \<longrightarrow> node_at h' (Some a) = node_at h (Some a))"
proof -
  from t p q have lt: "t < length h" "p < length h" "q < length h"
    by (auto dest: node_at_Some_less)
  define h1 where "h1 = h[p := Some (np\<lparr>node_next := Some q\<rparr>)]"
  define nq1 where "nq1 = (if q = p then np\<lparr>node_next := Some q\<rparr> else nq)"
  define h2 where "h2 = h1[q := Some (nq1\<lparr>node_prev := Some p\<rparr>)]"
  define h3 where "h3 = h2[t := None]"
  have s1: "get_prev h (Some t) = Some (Some p)" "get_next h (Some t) = Some (Some q)"
    using t tp tn by (simp_all add: get_Some)
  have s2: "set_next h (Some p) (Some q) = Some h1"
    using p by (simp add: set_next_Some h1_def)
  have "node_at h1 (Some t) = Some nt" using t pt by (simp add: h1_def node_at_update)
  then have s3: "get_next h1 (Some t) = Some (Some q)" "get_prev h1 (Some t) = Some (Some p)"
    using tp tn by (simp_all add: get_Some)
  have "node_at h1 (Some q) = Some nq1" using q p lt
    by (simp add: h1_def nq1_def node_at_update)
  then have s4: "set_prev h1 (Some q) (Some p) = Some h2"
    by (simp add: set_prev_Some h2_def)
  have t2: "node_at h2 (Some t) = Some nt" using t pt qt
    by (simp add: h2_def h1_def node_at_update)
  then have s5: "get_next h2 (Some t) = Some (Some q)" using tn by (simp add: get_Some)
  have s6: "delete_Node h2 (Some t) = Some h3" using t2 by (simp add: delete_Node_Some h3_def)
  have er: "erase h l pos =
      (h3, l\<lparr>size_field := size_field l - 1\<rparr>, Inr (iterator_ctor (Some q) (temp_node l)))"
    using ne ts by (simp add: erase_def pos s1 s2 s3 s4 s5 s6 or_undefined_def Let_def)
  have len: "length h3 = length h" by (simp add: h3_def h2_def h1_def)
  have nx: "next_of h3 a = (if a = t then None
                              else if a = p then Some (Some q) else next_of h a)" for a
    using lt tp tn t p q pt qt
    by (auto simp: next_of_def get_next_def h3_def h2_def h1_def nq1_def node_at_update)
  have pv: "prev_of h3 a = (if a = t then None
                              else if a = q then Some (Some p) else prev_of h a)" for a
    using lt tp tn t p q pt qt
    by (auto simp: prev_of_def get_prev_def h3_def h2_def h1_def nq1_def node_at_update)
  have vl: "get_value h3 (Some a) = (if a = t then None else get_value h (Some a))" for a
    using lt tp tn t p q pt qt
    by (auto simp: get_value_def h3_def h2_def h1_def nq1_def node_at_update)
  have fr: "node_at h3 (Some a) = node_at h (Some a)"
    if "a \<noteq> p \<and> a \<noteq> q \<and> a \<noteq> t" for a
    using that by (simp add: h3_def h2_def h1_def node_at_update)
  from er len nx pv vl fr show ?thesis by blast
qed

section \<open>Facts about rings\<close>

text \<open>
  A ring is split at a position into the nodes before it and those from it on. Inserting
  at the split and removing the first node after it keep the two chains of a ring.
\<close>

lemma chain_defined:
  "chain nxt cs \<Longrightarrow> a \<in> set (butlast cs) \<Longrightarrow> \<exists>b. nxt a = Some (Some b)"
  by (induction nxt cs rule: chain.induct) (auto split: if_splits)

lemma next_of_less: "next_of h a = Some b \<Longrightarrow> a < length h"
  by (auto simp: next_of_def get_next_def dest: node_at_Some_less)

lemma next_of_node: "next_of h a = Some b \<Longrightarrow> \<exists>n. node_at h (Some a) = Some n \<and> node_next n = b"
  by (auto simp: next_of_def get_next_def)

lemma prev_of_node: "prev_of h a = Some b \<Longrightarrow> \<exists>n. node_at h (Some a) = Some n \<and> node_prev n = b"
  by (auto simp: prev_of_def get_prev_def)

lemma last_not_in_butlast: "distinct zs \<Longrightarrow> zs \<noteq> [] \<Longrightarrow> last zs \<notin> set (butlast zs)"
proof -
  assume "distinct zs" "zs \<noteq> []"
  then have "distinct (butlast zs @ [last zs])" by simp
  then show ?thesis by simp
qed

lemma last_rev_hd: "last (s # rev ys) = hd (ys @ [s])"
  by (cases ys) auto

lemma hd_rev_last: "hd (rev xs @ [s]) = last (s # xs)"
  by (cases xs rule: rev_cases) auto

lemma ring_less:
  assumes "ring h l as" "temp_node l = Some s" "a \<in> set (s # as)"
  shows "a < length h"
proof -
  from assms have "chain (next_of h) (s # as @ [s])" by (simp add: ring_def)
  moreover have "a \<in> set (butlast (s # as @ [s]))" using assms(3) by (simp add: butlast_append)
  ultimately obtain b where "next_of h a = Some (Some b)" using chain_defined by blast
  then show ?thesis by (rule next_of_less)
qed

lemma ring_links:
  assumes r: "ring h l (xs @ ys)" and s: "temp_node l = Some s"
  shows "next_of h (last (s # xs)) = Some (Some (hd (ys @ [s])))"
    and "prev_of h (hd (ys @ [s])) = Some (Some (last (s # xs)))"
proof -
  from r s have "chain (next_of h) ((s # xs) @ (ys @ [s]))" by (simp add: ring_def)
  from chain_link [OF this] show "next_of h (last (s # xs)) = Some (Some (hd (ys @ [s])))"
    by simp
  from r s have "chain (prev_of h) ((s # rev ys) @ (rev xs @ [s]))" by (simp add: ring_def)
  from chain_link [OF this] show "prev_of h (hd (ys @ [s])) = Some (Some (last (s # xs)))"
    by (simp add: last_rev_hd hd_rev_last del: last.simps)
qed

lemma ring_emplace_split:
  assumes r: "ring h l (xs @ ys)" and s: "temp_node l = Some s"
    and pos: "current pos = Some (hd (ys @ [s]))"
  shows "\<exists>h'. emplace h l pos v =
           (h', l\<lparr>size_field := size_field l + 1\<rparr>, Inr (iterator_ctor (Some (length h)) (temp_node l))) \<and>
         ring h' (l\<lparr>size_field := size_field l + 1\<rparr>) (xs @ length h # ys) \<and>
         length h' = Suc (length h) \<and>
         (\<forall>a. next_of h' a = (if a = last (s # xs) then Some (Some (length h))
                              else if a = length h then Some (Some (hd (ys @ [s]))) else next_of h a)) \<and>
         (\<forall>a. prev_of h' a = (if a = hd (ys @ [s]) then Some (Some (length h))
                              else if a = length h then Some (Some (last (s # xs))) else prev_of h a)) \<and>
         (\<forall>a. get_value h' (Some a) = (if a = length h then Some v else get_value h (Some a))) \<and>
         (\<forall>a. a \<noteq> last (s # xs) \<and> a \<noteq> hd (ys @ [s]) \<and> a \<noteq> length h \<longrightarrow>
              node_at h' (Some a) = node_at h (Some a))"
proof -
  define p where "p = last (s # xs)"
  define t where "t = hd (ys @ [s])"
  note lk = ring_links [OF r s, folded p_def t_def]
  from lk(2) obtain nt where nt: "node_at h (Some t) = Some nt" "node_prev nt = Some p"
    by (auto dest: prev_of_node)
  from lk(1) obtain np where np: "node_at h (Some p) = Some np"
    by (auto dest: next_of_node)
  from emplace_fields [OF nt np, of pos l v] pos
  obtain h' where em: "emplace h l pos v =
           (h', l\<lparr>size_field := size_field l + 1\<rparr>, Inr (iterator_ctor (Some (length h)) (temp_node l)))"
    and len: "length h' = Suc (length h)"
    and nx: "\<And>a. next_of h' a = (if a = p then Some (Some (length h))
                              else if a = length h then Some (Some t) else next_of h a)"
    and pv: "\<And>a. prev_of h' a = (if a = t then Some (Some (length h))
                              else if a = length h then Some (Some p) else prev_of h a)"
    and vl: "\<And>a. get_value h' (Some a) = (if a = length h then Some v else get_value h (Some a))"
    and fr: "\<And>a. a \<noteq> p \<and> a \<noteq> t \<and> a \<noteq> length h \<longrightarrow> node_at h' (Some a) = node_at h (Some a)"
    by (auto simp: t_def)
  from r s have dist: "distinct (s # xs @ ys)" by (simp add: ring_def)
  have less: "a < length h" if "a \<in> set (s # xs @ ys)" for a
    using ring_less [OF r s] that by simp
  have p_in: "p \<in> set (s # xs)" unfolding p_def by (rule last_in_set) simp
  have t_in: "t \<in> set (ys @ [s])" unfolding t_def by (rule hd_in_set) simp
  have plt: "p < length h" using less p_in by auto
  have tlt: "t < length h" using less t_in by auto
  have fresh: "length h \<notin> set (s # xs @ ys)" using less by blast
  have cn: "chain (next_of h) ((s # xs) @ (ys @ [s]))" using r s by (simp add: ring_def)
  have cp: "chain (prev_of h) ((s # rev ys) @ (rev xs @ [s]))" using r s by (simp add: ring_def)
  have "chain (next_of h') ((s # xs) @ length h # (ys @ [s]))"
  proof (rule chain_insert [OF cn])
    show "next_of h' (last (s # xs)) = Some (Some (length h))" by (simp add: nx p_def)
    show "next_of h' (length h) = Some (Some (hd (ys @ [s])))" using plt by (simp add: nx t_def)
    fix a assume a: "a \<in> set (butlast (s # xs)) \<union> set (butlast (ys @ [s]))"
    have "p \<notin> set (butlast (s # xs))"
      unfolding p_def using dist by (intro last_not_in_butlast) auto
    moreover have "p \<notin> set ys" using p_in dist by auto
    ultimately have "a \<noteq> p" using a by (auto simp: butlast_append)
    moreover have "a \<in> set (s # xs @ ys)"
      using a in_set_butlastD [of a "s # xs"] by (auto simp del: butlast.simps)
    then have "a \<noteq> length h" using fresh by blast
    ultimately show "next_of h' a = next_of h a" by (simp add: nx)
  qed simp_all
  then have c1: "chain (next_of h') (s # (xs @ length h # ys) @ [s])" by simp
  have "chain (prev_of h') ((s # rev ys) @ length h # (rev xs @ [s]))"
  proof (rule chain_insert [OF cp])
    show "prev_of h' (last (s # rev ys)) = Some (Some (length h))"
      by (simp add: pv t_def last_rev_hd del: last.simps)
    show "prev_of h' (length h) = Some (Some (hd (rev xs @ [s])))"
      using tlt by (simp add: pv p_def hd_rev_last del: last.simps)
    fix a assume a: "a \<in> set (butlast (s # rev ys)) \<union> set (butlast (rev xs @ [s]))"
    have "last (s # rev ys) \<notin> set (butlast (s # rev ys))"
      using dist by (intro last_not_in_butlast) auto
    then have "t \<notin> set (butlast (s # rev ys))" by (simp add: t_def last_rev_hd del: last.simps)
    moreover have "t \<notin> set xs" using t_in dist by auto
    ultimately have "a \<noteq> t" using a by (auto simp: butlast_append)
    moreover have "a \<in> set (s # xs @ ys)"
      using a in_set_butlastD [of a "s # rev ys"] by (auto simp del: butlast.simps)
    then have "a \<noteq> length h" using fresh by blast
    ultimately show "prev_of h' a = prev_of h a" by (simp add: pv)
  qed simp_all
  then have c2: "chain (prev_of h') (s # rev (xs @ length h # ys) @ [s])" by simp
  have d: "distinct (s # xs @ length h # ys)" using dist fresh by auto
  have sz: "size_field l = length (xs @ ys)" using r s by (simp add: ring_def)
  have "ring h' (l\<lparr>size_field := size_field l + 1\<rparr>) (xs @ length h # ys)"
    using c1 c2 d sz s by (simp add: ring_def)
  with em len nx pv vl fr show ?thesis unfolding p_def t_def by blast
qed

lemma ring_erase_split:
  assumes r: "ring h l (xs @ t # ys)" and s: "temp_node l = Some s"
    and pos: "current pos = Some t"
  shows "\<exists>h'. erase h l pos =
           (h', l\<lparr>size_field := size_field l - 1\<rparr>, Inr (iterator_ctor (Some (hd (ys @ [s]))) (temp_node l))) \<and>
         ring h' (l\<lparr>size_field := size_field l - 1\<rparr>) (xs @ ys) \<and>
         length h' = length h \<and>
         (\<forall>a. next_of h' a = (if a = t then None
                              else if a = last (s # xs) then Some (Some (hd (ys @ [s]))) else next_of h a)) \<and>
         (\<forall>a. prev_of h' a = (if a = t then None
                              else if a = hd (ys @ [s]) then Some (Some (last (s # xs))) else prev_of h a)) \<and>
         (\<forall>a. get_value h' (Some a) = (if a = t then None else get_value h (Some a))) \<and>
         (\<forall>a. a \<noteq> last (s # xs) \<and> a \<noteq> hd (ys @ [s]) \<and> a \<noteq> t \<longrightarrow>
              node_at h' (Some a) = node_at h (Some a))"
proof -
  define p where "p = last (s # xs)"
  define q where "q = hd (ys @ [s])"
  from r s have dist: "distinct (s # xs @ t # ys)" by (simp add: ring_def)
  from r s have sz: "size_field l = length (xs @ t # ys)" by (simp add: ring_def)
  have ne: "\<not> empty_cl l" using sz by (simp add: empty_cl_def)
  have ts: "Some t \<noteq> temp_node l" using dist s by auto
  from ring_links [OF r s] have l1: "next_of h p = Some (Some t)" "prev_of h t = Some (Some p)"
    by (simp_all add: p_def)
  from r have r': "ring h l ((xs @ [t]) @ ys)" by simp
  from ring_links [OF r' s] have l2: "next_of h t = Some (Some q)" "prev_of h q = Some (Some t)"
    by (simp_all add: q_def)
  from l1(2) l2(1) obtain nt where nt: "node_at h (Some t) = Some nt"
      "node_prev nt = Some p" "node_next nt = Some q"
    by (auto dest!: prev_of_node next_of_node)
  from l1(1) obtain np where np: "node_at h (Some p) = Some np" by (auto dest: next_of_node)
  from l2(2) obtain nq where nq: "node_at h (Some q) = Some nq" by (auto dest: prev_of_node)
  have p_in: "p \<in> set (s # xs)" unfolding p_def by (rule last_in_set) simp
  have q_in: "q \<in> set (ys @ [s])" unfolding q_def by (rule hd_in_set) simp
  have pt: "p \<noteq> t" using p_in dist by auto
  have qt: "q \<noteq> t" using q_in dist by auto
  from erase_fields [OF ne pos ts nt np nq pt qt]
  obtain h' where er: "erase h l pos =
           (h', l\<lparr>size_field := size_field l - 1\<rparr>, Inr (iterator_ctor (Some q) (temp_node l)))"
    and len: "length h' = length h"
    and nx: "\<And>a. next_of h' a = (if a = t then None
                              else if a = p then Some (Some q) else next_of h a)"
    and pv: "\<And>a. prev_of h' a = (if a = t then None
                              else if a = q then Some (Some p) else prev_of h a)"
    and vl: "\<And>a. get_value h' (Some a) = (if a = t then None else get_value h (Some a))"
    and fr: "\<And>a. a \<noteq> p \<and> a \<noteq> q \<and> a \<noteq> t \<longrightarrow> node_at h' (Some a) = node_at h (Some a)"
    by auto
  have cn: "chain (next_of h) ((s # xs) @ t # (ys @ [s]))" using r s by (simp add: ring_def)
  have cp: "chain (prev_of h) ((s # rev ys) @ t # (rev xs @ [s]))" using r s by (simp add: ring_def)
  have "chain (next_of h') ((s # xs) @ (ys @ [s]))"
  proof (rule chain_remove [OF cn])
    show "next_of h' (last (s # xs)) = Some (Some (hd (ys @ [s])))"
      using pt by (simp add: nx p_def q_def)
    fix a assume a: "a \<in> set (butlast (s # xs)) \<union> set (butlast (ys @ [s]))"
    have "p \<notin> set (butlast (s # xs))"
      unfolding p_def using dist by (intro last_not_in_butlast) auto
    moreover have "p \<notin> set ys" using p_in dist by auto
    ultimately have "a \<noteq> p" using a by (auto simp: butlast_append)
    moreover have "a \<in> set (s # xs @ ys)"
      using a in_set_butlastD [of a "s # xs"] by (auto simp del: butlast.simps)
    then have "a \<noteq> t" using dist by auto
    ultimately show "next_of h' a = next_of h a" by (simp add: nx)
  qed simp_all
  then have c1: "chain (next_of h') (s # (xs @ ys) @ [s])" by simp
  have "chain (prev_of h') ((s # rev ys) @ (rev xs @ [s]))"
  proof (rule chain_remove [OF cp])
    show "prev_of h' (last (s # rev ys)) = Some (Some (hd (rev xs @ [s])))"
      using qt by (simp add: pv p_def q_def last_rev_hd hd_rev_last del: last.simps)
    fix a assume a: "a \<in> set (butlast (s # rev ys)) \<union> set (butlast (rev xs @ [s]))"
    have "last (s # rev ys) \<notin> set (butlast (s # rev ys))"
      using dist by (intro last_not_in_butlast) auto
    then have "q \<notin> set (butlast (s # rev ys))" by (simp add: q_def last_rev_hd del: last.simps)
    moreover have "q \<notin> set xs" using q_in dist by auto
    ultimately have "a \<noteq> q" using a by (auto simp: butlast_append)
    moreover have "a \<in> set (s # xs @ ys)"
      using a in_set_butlastD [of a "s # rev ys"] by (auto simp del: butlast.simps)
    then have "a \<noteq> t" using dist by auto
    ultimately show "prev_of h' a = prev_of h a" by (simp add: pv)
  qed simp_all
  then have c2: "chain (prev_of h') (s # rev (xs @ ys) @ [s])" by simp
  have d: "distinct (s # xs @ ys)" using dist by auto
  have "ring h' (l\<lparr>size_field := size_field l - 1\<rparr>) (xs @ ys)"
    using c1 c2 d sz s by (simp add: ring_def)
  with er len nx pv vl fr show ?thesis unfolding p_def q_def by blast
qed

section \<open>Facts about represented lists\<close>

lemma repr_length: "repr h l as xs \<Longrightarrow> length xs = length as"
  by (auto simp: repr_def contents_def dest: arg_cong [where f = length])

lemma repr_size: "repr h l as xs \<Longrightarrow> size_field l = length xs"
  using repr_length [of h l as xs] by (auto simp: repr_def ring_def split: option.splits)

lemma repr_value:
  assumes "repr h l as xs" "i < length as"
  shows "get_value h (Some (as ! i)) = Some (xs ! i)"
proof -
  from assms(1) have "contents h as ! i = map Some xs ! i" by (simp add: repr_def)
  with assms repr_length [OF assms(1)] show ?thesis by (simp add: contents_def)
qed

lemma ring_sentinel: "ring h l as \<Longrightarrow> \<exists>s. temp_node l = Some s"
  by (auto simp: ring_def split: option.splits)

lemma ring_first:
  assumes "ring h l as" "temp_node l = Some s"
  shows "get_next h (Some s) = Some (Some (hd (as @ [s])))"
  using ring_links(1) [of h l "[]" as s] assms by (simp add: next_of_def)

lemma ring_last:
  assumes "ring h l as" "temp_node l = Some s"
  shows "get_prev h (Some s) = Some (Some (last (s # as)))"
  using ring_links(2) [of h l as "[]" s] assms by (simp add: prev_of_def)

lemma node_pos_hd:
  "temp_node l = Some s \<Longrightarrow> node_pos l as j = Some (hd (drop j as @ [s]))"
  by (simp add: node_pos_def hd_append hd_drop_conv_nth)

lemma begin_cl_ring:
  assumes "ring h l as" "temp_node l = Some s"
  shows "begin_cl h l = Some (position l as 0)"
  using ring_first [OF assms] assms(2)
  by (cases as) (simp_all add: begin_cl_def position_def node_pos_def)

lemma end_cl_position: "end_cl l = position l as (length as)"
  by (simp add: end_cl_def position_def node_pos_def)

lemma iter_dec_end_empty:
  assumes "ring h l []"
  shows "iter_dec h (end_cl l) = Inr (end_cl l)"
proof -
  from assms obtain s where s: "temp_node l = Some s" by (auto dest: ring_sentinel)
  from ring_last [OF assms s] show ?thesis
    by (simp add: iter_dec_def end_cl_def iterator_ctor_def s)
qed

lemma contents_cong:
  "(\<And>a. a \<in> set as \<Longrightarrow> get_value h' (Some a) = get_value h (Some a)) \<Longrightarrow>
   contents h' as = contents h as"
  by (simp add: contents_def)

lemma contents_take: "contents h (take j as) = take j (contents h as)"
  by (simp add: contents_def take_map)

lemma contents_drop: "contents h (drop j as) = drop j (contents h as)"
  by (simp add: contents_def drop_map)

lemma pred_pos_last:
  "temp_node l = Some s \<Longrightarrow> j \<le> length as \<Longrightarrow> pred_pos l as j = Some (last (s # take j as))"
  by (cases j) (simp_all add: pred_pos_def take_Suc_conv_app_nth)

lemma repr_emplace:
  assumes r: "repr h l as xs" and j: "j \<le> length as" and pos: "current pos = node_pos l as j"
  shows "\<exists>h'. emplace h l pos v =
           (h', l\<lparr>size_field := size_field l + 1\<rparr>,
            Inr (iterator_ctor (Some (length h)) (temp_node l))) \<and>
         repr h' (l\<lparr>size_field := size_field l + 1\<rparr>)
           (insert_at j (length h) as) (insert_at j v xs) \<and>
         length h' = Suc (length h) \<and>
         (\<forall>a. next_of h' a = (if Some a = pred_pos l as j then Some (Some (length h))
              else if a = length h then Some (node_pos l as j) else next_of h a)) \<and>
         (\<forall>a. prev_of h' a = (if Some a = node_pos l as j then Some (Some (length h))
              else if a = length h then Some (pred_pos l as j) else prev_of h a)) \<and>
         (\<forall>a. get_value h' (Some a) = (if a = length h then Some v else get_value h (Some a))) \<and>
         (\<forall>a. Some a \<noteq> pred_pos l as j \<and> Some a \<noteq> node_pos l as j \<and> a \<noteq> length h \<longrightarrow>
              node_at h' (Some a) = node_at h (Some a))"
proof -
  from r have rg: "ring h l as" by (simp add: repr_def)
  then obtain s where s: "temp_node l = Some s" by (auto dest: ring_sentinel)
  have np: "node_pos l as j = Some (hd (drop j as @ [s]))" by (rule node_pos_hd [OF s])
  have pp: "pred_pos l as j = Some (last (s # take j as))" by (rule pred_pos_last [OF s j])
  from rg have rg': "ring h l (take j as @ drop j as)" by simp
  from pos np have pos': "current pos = Some (hd (drop j as @ [s]))" by simp
  from ring_emplace_split [OF rg' s pos', of v]
  obtain h' where em: "emplace h l pos v =
           (h', l\<lparr>size_field := size_field l + 1\<rparr>,
            Inr (iterator_ctor (Some (length h)) (temp_node l)))"
    and rg2: "ring h' (l\<lparr>size_field := size_field l + 1\<rparr>) (insert_at j (length h) as)"
    and len: "length h' = Suc (length h)"
    and nx: "\<And>a. next_of h' a = (if Some a = pred_pos l as j then Some (Some (length h))
              else if a = length h then Some (node_pos l as j) else next_of h a)"
    and pv: "\<And>a. prev_of h' a = (if Some a = node_pos l as j then Some (Some (length h))
              else if a = length h then Some (pred_pos l as j) else prev_of h a)"
    and vl: "\<And>a. get_value h' (Some a) = (if a = length h then Some v else get_value h (Some a))"
    and fr: "\<And>a. Some a \<noteq> pred_pos l as j \<and> Some a \<noteq> node_pos l as j \<and> a \<noteq> length h \<longrightarrow>
              node_at h' (Some a) = node_at h (Some a)"
    unfolding np pp insert_at_def by (auto simp del: last.simps)
  have fresh: "length h \<notin> set as" using ring_less [OF rg s] by auto
  have "contents h' (insert_at j (length h) as) =
        contents h' (take j as) @ Some v # contents h' (drop j as)"
    by (simp add: insert_at_def contents_def vl)
  also have "contents h' (take j as) = contents h (take j as)"
    using fresh by (intro contents_cong) (auto simp: vl dest: in_set_takeD)
  also have "contents h' (drop j as) = contents h (drop j as)"
    using fresh by (intro contents_cong) (auto simp: vl dest: in_set_dropD)
  finally have "contents h' (insert_at j (length h) as) = map Some (insert_at j v xs)"
    using r by (simp add: repr_def contents_take contents_drop insert_at_def take_map drop_map)
  with rg2 have "repr h' (l\<lparr>size_field := size_field l + 1\<rparr>)
           (insert_at j (length h) as) (insert_at j v xs)"
    by (simp add: repr_def)
  with em len nx pv vl fr show ?thesis by blast
qed

lemma repr_erase:
  assumes r: "repr h l as xs" and j: "j < length as" and pos: "current pos = node_pos l as j"
  shows "\<exists>h'. erase h l pos =
           (h', l\<lparr>size_field := size_field l - 1\<rparr>,
            Inr (iterator_ctor (node_pos l as (Suc j)) (temp_node l))) \<and>
         repr h' (l\<lparr>size_field := size_field l - 1\<rparr>) (remove_at j as) (remove_at j xs) \<and>
         length h' = length h \<and>
         (\<forall>a. next_of h' a = (if a = as ! j then None
              else if Some a = pred_pos l as j then Some (node_pos l as (Suc j))
              else next_of h a)) \<and>
         (\<forall>a. prev_of h' a = (if a = as ! j then None
              else if Some a = node_pos l as (Suc j) then Some (pred_pos l as j)
              else prev_of h a)) \<and>
         (\<forall>a. get_value h' (Some a) = (if a = as ! j then None else get_value h (Some a))) \<and>
         (\<forall>a. Some a \<noteq> pred_pos l as j \<and> Some a \<noteq> node_pos l as (Suc j) \<and> a \<noteq> as ! j \<longrightarrow>
              node_at h' (Some a) = node_at h (Some a))"
proof -
  from r have rg: "ring h l as" by (simp add: repr_def)
  then obtain s where s: "temp_node l = Some s" by (auto dest: ring_sentinel)
  have np: "node_pos l as (Suc j) = Some (hd (drop (Suc j) as @ [s]))" by (rule node_pos_hd [OF s])
  have pp: "pred_pos l as j = Some (last (s # take j as))"
    using j by (intro pred_pos_last [OF s]) simp
  have split: "as = take j as @ as ! j # drop (Suc j) as" using j by (rule id_take_nth_drop)
  from rg have rg': "ring h l (take j as @ as ! j # drop (Suc j) as)" using split by simp
  from pos j have pos': "current pos = Some (as ! j)" by (simp add: node_pos_def)
  from ring_erase_split [OF rg' s pos']
  obtain h' where er: "erase h l pos =
           (h', l\<lparr>size_field := size_field l - 1\<rparr>,
            Inr (iterator_ctor (node_pos l as (Suc j)) (temp_node l)))"
    and rg2: "ring h' (l\<lparr>size_field := size_field l - 1\<rparr>) (remove_at j as)"
    and len: "length h' = length h"
    and nx: "\<And>a. next_of h' a = (if a = as ! j then None
              else if Some a = pred_pos l as j then Some (node_pos l as (Suc j))
              else next_of h a)"
    and pv: "\<And>a. prev_of h' a = (if a = as ! j then None
              else if Some a = node_pos l as (Suc j) then Some (pred_pos l as j)
              else prev_of h a)"
    and vl: "\<And>a. get_value h' (Some a) = (if a = as ! j then None else get_value h (Some a))"
    and fr: "\<And>a. Some a \<noteq> pred_pos l as j \<and> Some a \<noteq> node_pos l as (Suc j) \<and> a \<noteq> as ! j \<longrightarrow>
              node_at h' (Some a) = node_at h (Some a)"
    unfolding np pp remove_at_def by (auto simp del: last.simps)
  from rg s have "distinct as" by (simp add: ring_def)
  with split have "distinct (take j as @ as ! j # drop (Suc j) as)" by simp
  then have notin: "as ! j \<notin> set (take j as)" "as ! j \<notin> set (drop (Suc j) as)"
    by auto
  have "contents h' (remove_at j as) =
        contents h' (take j as) @ contents h' (drop (Suc j) as)"
    by (simp add: remove_at_def contents_def)
  also have "contents h' (take j as) = contents h (take j as)"
    using notin by (intro contents_cong) (auto simp: vl)
  also have "contents h' (drop (Suc j) as) = contents h (drop (Suc j) as)"
    using notin by (intro contents_cong) (auto simp: vl)
  finally have "contents h' (remove_at j as) = map Some (remove_at j xs)"
    using r by (simp add: repr_def contents_take contents_drop remove_at_def take_map drop_map)
  with rg2 have "repr h' (l\<lparr>size_field := size_field l - 1\<rparr>) (remove_at j as) (remove_at j xs)"
    by (simp add: repr_def)
  with er len nx pv vl fr show ?thesis by blast
qed

lemma node_at_released: "next_of h a = None \<Longrightarrow> node_at h (Some a) = None"
  by (simp add: next_of_def get_next_def)

section \<open>Positions and iterators\<close>

lemma ring_links_index:
  assumes r: "ring h l as" and j: "j \<le> length as"
  shows "\<exists>p t. pred_pos l as j = Some p \<and> node_pos l as j = Some t \<and>
           next_of h p = Some (Some t) \<and> prev_of h t = Some (Some p)"
proof -
  from r obtain s where s: "temp_node l = Some s" by (auto dest: ring_sentinel)
  from r have r': "ring h l (take j as @ drop j as)" by simp
  from ring_links [OF r' s] node_pos_hd [OF s, of as j] pred_pos_last [OF s j]
  show ?thesis by simp
qed

lemma ring_pos_neq_sentinel:
  assumes r: "ring h l as" and j: "j < length as"
  shows "node_pos l as j \<noteq> temp_node l"
proof -
  from r obtain s where s: "temp_node l = Some s" by (auto dest: ring_sentinel)
  from r s have "s \<notin> set as" by (simp add: ring_def)
  with j have "as ! j \<noteq> s" by (metis nth_mem)
  with j s show ?thesis by (simp add: node_pos_def)
qed

lemma node_pos_end: "node_pos l as (length as) = temp_node l"
  by (simp add: node_pos_def)

lemma iter_deref_position:
  assumes r: "repr h l as xs" and j: "j < length as"
  shows "iter_deref h (position l as j) = Inr (xs ! j)"
proof -
  from r have rg: "ring h l as" by (simp add: repr_def)
  from ring_pos_neq_sentinel [OF rg j] repr_value [OF r j] j show ?thesis
    by (simp add: iter_deref_def position_def iterator_ctor_def node_pos_def)
qed

lemma iter_inc_position:
  assumes r: "ring h l as" and j: "j < length as"
  shows "iter_inc h (position l as j) = Inr (position l as (Suc j))"
proof -
  from j have "Suc j \<le> length as" by simp
  from ring_links_index [OF r this] j
  have "next_of h (as ! j) = Some (node_pos l as (Suc j))" by (auto simp: pred_pos_def)
  with ring_pos_neq_sentinel [OF r j] j show ?thesis
    by (simp add: iter_inc_def position_def iterator_ctor_def node_pos_def next_of_def)
qed

lemma current_position: "current (position l as j) = node_pos l as j"
  by (simp add: position_def iterator_ctor_def)

lemma iter_dec_position:
  assumes r: "ring h l as" and j: "j \<le> length as"
  shows "iter_dec h (position l as j) = Inr (position l as (dec_index (length as) j))"
proof -
  from r obtain s where s: "temp_node l = Some s" by (auto dest: ring_sentinel)
  from ring_links_index [OF r j]
  have pj: "get_prev h (node_pos l as j) = Some (pred_pos l as j)"
    by (auto simp: prev_of_def)
  show ?thesis
  proof (cases "j = 0")
    case True
    from ring_last [OF r s] have "get_prev h (temp_node l) = Some (node_pos l as (length as - 1))"
      by (cases as rule: rev_cases) (simp_all add: s node_pos_def)
    with pj True show ?thesis
      by (simp add: iter_dec_def position_def iterator_ctor_def pred_pos_def dec_index_def)
  next
    case False
    then have lt: "j - 1 < length as" using j by simp
    from False lt have eq: "pred_pos l as j = node_pos l as (j - 1)"
      by (simp add: pred_pos_def node_pos_def)
    from ring_pos_neq_sentinel [OF r lt] have "pred_pos l as j \<noteq> temp_node l"
      by (simp add: eq)
    note this eq
    with pj False show ?thesis
      by (simp add: iter_dec_def position_def iterator_ctor_def dec_index_def)
  qed
qed



section \<open>Frames\<close>

text \<open>
  A call on a container changes only cells of that container and cells that it
  allocates, so a ring elsewhere in the heap stays as it is.
\<close>

lemma frame_refl: "frame h h F"
  by (simp add: frame_def)

lemma frame_trans:
  assumes "frame h h' F" "frame h' h'' F'" "\<And>a. a \<in> F' \<Longrightarrow> a \<in> F \<or> length h \<le> a"
  shows "frame h h'' F"
  using assms unfolding frame_def by (metis le_trans not_le order.strict_trans2)

lemma cells_less:
  assumes "ring h l as" "a \<in> cells l as"
  shows "a < length h"
proof -
  from assms(1) obtain s where s: "temp_node l = Some s" by (auto dest: ring_sentinel)
  with assms(2) have "a \<in> set (s # as)" by (auto simp: cells_def)
  with ring_less [OF assms(1) s] show ?thesis by blast
qed

lemma ring_frame:
  assumes r: "ring h l as" and f: "frame h h' F" and d: "cells l as \<inter> F = {}"
  shows "ring h' l as"
proof -
  from r obtain s where s: "temp_node l = Some s" by (auto dest: ring_sentinel)
  have same: "node_at h' (Some a) = node_at h (Some a)" if "a \<in> set (s # as)" for a
  proof -
    from that s have c: "a \<in> cells l as" by (auto simp: cells_def)
    with d have "a \<notin> F" by blast
    with cells_less [OF r c] f show ?thesis by (simp add: frame_def)
  qed
  have "chain (next_of h') (s # as @ [s]) = chain (next_of h) (s # as @ [s])"
    by (rule chain_cong) (use same in \<open>auto simp: next_of_def get_next_def butlast_append\<close>)
  moreover have "chain (prev_of h') (s # rev as @ [s]) = chain (prev_of h) (s # rev as @ [s])"
    by (rule chain_cong) (use same in \<open>auto simp: prev_of_def get_prev_def butlast_append\<close>)
  ultimately show ?thesis using r s by (simp add: ring_def)
qed

lemma repr_frame:
  assumes r: "repr h l as xs" and f: "frame h h' F" and d: "cells l as \<inter> F = {}"
  shows "repr h' l as xs"
proof -
  from r have rg: "ring h l as" by (simp add: repr_def)
  have "contents h' as = contents h as"
  proof (rule contents_cong)
    fix a assume "a \<in> set as"
    then have c: "a \<in> cells l as" by (simp add: cells_def)
    with d have "a \<notin> F" by blast
    with cells_less [OF rg c] f show "get_value h' (Some a) = get_value h (Some a)"
      by (simp add: frame_def get_value_def)
  qed
  with ring_frame [OF rg f d] r show ?thesis by (simp add: repr_def)
qed

lemma pos_in_cells:
  assumes "ring h l as" "j \<le> length as"
  shows "\<exists>p t. pred_pos l as j = Some p \<and> node_pos l as j = Some t \<and>
           p \<in> cells l as \<and> t \<in> cells l as"
proof -
  from assms(1) obtain s where s: "temp_node l = Some s" by (auto dest: ring_sentinel)
  show ?thesis using assms(2) s
    by (cases j) (auto simp: pred_pos_def node_pos_def cells_def)
qed

lemma emplace_repr_frame:
  assumes r: "repr h l as xs" and j: "j \<le> length as" and pos: "current pos = node_pos l as j"
  shows "\<exists>h'. emplace h l pos v =
           (h', l\<lparr>size_field := size_field l + 1\<rparr>,
            Inr (iterator_ctor (Some (length h)) (temp_node l))) \<and>
         repr h' (l\<lparr>size_field := size_field l + 1\<rparr>)
           (insert_at j (length h) as) (insert_at j v xs) \<and>
         length h' = Suc (length h) \<and> frame h h' (cells l as)"
proof -
  from r have rg: "ring h l as" by (simp add: repr_def)
  from pos_in_cells [OF rg j] obtain p t where
    pt: "pred_pos l as j = Some p" "node_pos l as j = Some t" "p \<in> cells l as" "t \<in> cells l as"
    by blast
  from repr_emplace [OF r j pos, of v] obtain h' where
    em: "emplace h l pos v =
           (h', l\<lparr>size_field := size_field l + 1\<rparr>,
            Inr (iterator_ctor (Some (length h)) (temp_node l)))"
    and r': "repr h' (l\<lparr>size_field := size_field l + 1\<rparr>)
           (insert_at j (length h) as) (insert_at j v xs)"
    and len: "length h' = Suc (length h)"
    and fr: "\<And>a. Some a \<noteq> pred_pos l as j \<and> Some a \<noteq> node_pos l as j \<and> a \<noteq> length h \<longrightarrow>
              node_at h' (Some a) = node_at h (Some a)"
    by blast
  have "frame h h' (cells l as)"
    unfolding frame_def
  proof (intro conjI allI impI)
    show "length h \<le> length h'" using len by simp
    fix a assume a: "a < length h \<and> a \<notin> cells l as"
    with pt have "a \<noteq> p" "a \<noteq> t" "a \<noteq> length h" by auto
    with fr [of a] pt show "node_at h' (Some a) = node_at h (Some a)" by simp
  qed
  with em r' len show ?thesis by blast
qed

lemma erase_repr_frame:
  assumes r: "repr h l as xs" and j: "j < length as" and pos: "current pos = node_pos l as j"
  shows "\<exists>h'. erase h l pos =
           (h', l\<lparr>size_field := size_field l - 1\<rparr>,
            Inr (iterator_ctor (node_pos l as (Suc j)) (temp_node l))) \<and>
         repr h' (l\<lparr>size_field := size_field l - 1\<rparr>) (remove_at j as) (remove_at j xs) \<and>
         length h' = length h \<and> frame h h' (cells l as)"
proof -
  from r have rg: "ring h l as" by (simp add: repr_def)
  from j have j1: "j \<le> length as" and j2: "Suc j \<le> length as" by simp_all
  from pos_in_cells [OF rg j1] obtain p where p: "pred_pos l as j = Some p" "p \<in> cells l as"
    by blast
  from pos_in_cells [OF rg j2] obtain q where q: "node_pos l as (Suc j) = Some q" "q \<in> cells l as"
    by blast
  from j have t: "as ! j \<in> cells l as" by (simp add: cells_def)
  from repr_erase [OF r j pos] obtain h' where
    er: "erase h l pos =
           (h', l\<lparr>size_field := size_field l - 1\<rparr>,
            Inr (iterator_ctor (node_pos l as (Suc j)) (temp_node l)))"
    and r': "repr h' (l\<lparr>size_field := size_field l - 1\<rparr>) (remove_at j as) (remove_at j xs)"
    and len: "length h' = length h"
    and fr: "\<And>a. Some a \<noteq> pred_pos l as j \<and> Some a \<noteq> node_pos l as (Suc j) \<and> a \<noteq> as ! j \<longrightarrow>
              node_at h' (Some a) = node_at h (Some a)"
    by blast
  have "frame h h' (cells l as)"
    unfolding frame_def
  proof (intro conjI allI impI)
    show "length h \<le> length h'" using len by simp
    fix a assume a: "a < length h \<and> a \<notin> cells l as"
    with p q t have "a \<noteq> p" "a \<noteq> q" "a \<noteq> as ! j" by auto
    with fr [of a] p q show "node_at h' (Some a) = node_at h (Some a)" by simp
  qed
  with er r' len show ?thesis by blast
qed

section \<open>Traversals\<close>

lemma iter_neq_end:
  assumes r: "ring h l as" and j: "j \<le> length as"
  shows "iter_neq (position l as j) (end_cl l) \<longleftrightarrow> j < length as"
proof (cases "j < length as")
  case True
  with ring_pos_neq_sentinel [OF r True] show ?thesis
    by (simp add: iter_neq_def iter_eq_def current_position end_cl_def iterator_ctor_def)
next
  case False
  with j have "j = length as" by simp
  then show ?thesis
    by (simp add: iter_neq_def iter_eq_def current_position end_cl_def iterator_ctor_def
        node_pos_end)
qed

lemma collect_from_position:
  assumes r: "repr h l as xs"
  shows "j \<le> length as \<Longrightarrow>
    collect_from h l (position l as j) acc = Some (Inr (acc @ drop j xs))"
proof (induction "length as - j" arbitrary: j acc)
  case 0
  from r have rg: "ring h l as" by (simp add: repr_def)
  from 0 have j: "j = length as" by simp
  with iter_neq_end [OF rg, of j] repr_length [OF r] show ?case
    by (subst collect_from.simps) simp
next
  case (Suc n)
  from r have rg: "ring h l as" by (simp add: repr_def)
  from Suc have j: "j < length as" by simp
  have next_eq: "n = length as - Suc j" using Suc by simp
  have "collect_from h l (position l as j) acc =
        collect_from h l (position l as (Suc j)) (acc @ [xs ! j])"
    using iter_neq_end [OF rg, of j] j iter_deref_position [OF r j] iter_inc_position [OF rg j]
    by (subst collect_from.simps) simp
  also have "\<dots> = Some (Inr ((acc @ [xs ! j]) @ drop (Suc j) xs))"
    using j by (intro Suc.hyps(1) next_eq) simp
  also have "(acc @ [xs ! j]) @ drop (Suc j) xs = acc @ drop j xs"
    using j repr_length [OF r] by (simp add: Cons_nth_drop_Suc)
  finally show ?case .
qed

lemma forward_iteration_repr:
  assumes r: "repr h l as xs"
  shows "forward_iteration h l = Some (Inr xs)"
proof -
  from r have rg: "ring h l as" by (simp add: repr_def)
  then obtain s where s: "temp_node l = Some s" by (auto dest: ring_sentinel)
  from begin_cl_ring [OF rg s] collect_from_position [OF r, of 0 "[]"] show ?thesis
    by (simp add: forward_iteration_def)
qed

lemma node_pos_inj0:
  assumes r: "ring h l as" and j: "j \<le> length as"
  shows "node_pos l as j = node_pos l as 0 \<longleftrightarrow> j = 0"
proof (cases "j = 0")
  case True
  then show ?thesis by simp
next
  case False
  from r obtain s where s: "temp_node l = Some s" by (auto dest: ring_sentinel)
  from r s have d: "distinct (as @ [s])" by (auto simp: ring_def)
  from False j have ne: "as \<noteq> []" by auto
  have "(as @ [s]) ! j \<noteq> (as @ [s]) ! 0"
    using d j False ne by (simp add: nth_eq_iff_index_eq)
  then have "node_pos l as j \<noteq> node_pos l as 0"
    using j ne s by (auto simp: node_pos_def nth_append split: if_splits)
  with False show ?thesis by simp
qed

lemma rcollect_from_position:
  assumes r: "repr h l as xs"
  shows "j \<le> length as \<Longrightarrow>
    rcollect_from h l (Reverse (position l as j)) acc = Some (Inr (acc @ rev (take j xs)))"
proof (induction j arbitrary: acc)
  case 0
  from r have rg: "ring h l as" by (simp add: repr_def)
  then obtain s where s: "temp_node l = Some s" by (auto dest: ring_sentinel)
  from begin_cl_ring [OF rg s] show ?case
    by (subst rcollect_from.simps) (simp add: rend_def rev_eq_def iter_eq_def)
next
  case (Suc k)
  from r have rg: "ring h l as" by (simp add: repr_def)
  then obtain s where s: "temp_node l = Some s" by (auto dest: ring_sentinel)
  from Suc.prems have k: "k < length as" by simp
  have re: "rend h l = Some (Reverse (position l as 0))"
    using begin_cl_ring [OF rg s] by (simp add: rend_def)
  have ne: "\<not> rev_eq (Reverse (position l as (Suc k))) (Reverse (position l as 0))"
    using node_pos_inj0 [OF rg Suc.prems] by (simp add: rev_eq_def iter_eq_def current_position)
  have dec: "iter_dec h (position l as (Suc k)) = Inr (position l as k)"
    using iter_dec_position [OF rg Suc.prems] by (simp add: dec_index_def)
  have "rcollect_from h l (Reverse (position l as (Suc k))) acc =
        rcollect_from h l (Reverse (position l as k)) (acc @ [xs ! k])"
    using re ne dec iter_deref_position [OF r k]
    by (subst rcollect_from.simps) (simp add: rev_deref_def rev_inc_def)
  also have "\<dots> = Some (Inr ((acc @ [xs ! k]) @ rev (take k xs)))"
    using k by (intro Suc.IH) simp
  also have "(acc @ [xs ! k]) @ rev (take k xs) = acc @ rev (take (Suc k) xs)"
    using k repr_length [OF r] by (simp add: take_Suc_conv_app_nth)
  finally show ?case .
qed

lemma reverse_iteration_repr:
  assumes r: "repr h l as xs"
  shows "reverse_iteration h l = Some (Inr (rev xs))"
  using rcollect_from_position [OF r, of "length as" "[]"] repr_length [OF r]
  by (simp add: reverse_iteration_def rbegin_def end_cl_position [of l as])

section \<open>Constructors and appending\<close>

lemma default_ctor_repr:
  "\<exists>h0 l0. default_ctor d h = Some (h0, l0) \<and> repr h0 l0 [] [] \<and>
     temp_node l0 = Some (length h) \<and> length h0 = Suc (length h) \<and> frame h h0 {}"
proof -
  define n :: "'a Node" where
    "n = \<lparr>node_value = d, node_next = Some (length h), node_prev = Some (length h)\<rparr>"
  have dc: "default_ctor d h = Some (h @ [Some n], \<lparr>temp_node = Some (length h), size_field = 0\<rparr>)"
    by (simp add: default_ctor_def new_Node_def set_next_def set_prev_def update_node_def
        node_at_def n_def)
  have "repr (h @ [Some n]) \<lparr>temp_node = Some (length h), size_field = 0\<rparr> [] []"
    by (simp add: repr_def ring_def contents_def next_of_def prev_of_def get_next_def
        get_prev_def node_at_def n_def)
  moreover have "frame h (h @ [Some n]) {}"
    by (simp add: frame_def node_at_append)
  ultimately show ?thesis using dc by simp
qed

lemma push_back_repr:
  assumes r: "repr h l as xs"
  shows "\<exists>h'. push_back h l v = (h', l\<lparr>size_field := size_field l + 1\<rparr>, Inr ()) \<and>
           repr h' (l\<lparr>size_field := size_field l + 1\<rparr>) (as @ [length h]) (xs @ [v]) \<and>
           length h' = Suc (length h) \<and> frame h h' (cells l as)"
proof -
  have pos: "current (end_cl l) = node_pos l as (length as)"
    by (simp add: end_cl_def iterator_ctor_def node_pos_end)
  from emplace_repr_frame [OF r _ pos, of v] repr_length [OF r] show ?thesis
    by (auto simp: push_back_def insert_cl_def discard_def insert_at_def)
qed

lemma push_back_all_repr:
  "repr h l as xs \<Longrightarrow>
   \<exists>h' l'. push_back_all h l ys = (h', l', Inr ()) \<and>
     repr h' l' (as @ [length h ..< length h + length ys]) (xs @ ys) \<and>
     temp_node l' = temp_node l \<and>
     length h' = length h + length ys \<and> frame h h' (cells l as)"
proof (induction ys arbitrary: h l as xs)
  case Nil
  then show ?case by (simp add: frame_refl)
next
  case (Cons y ys)
  define l1 where "l1 = l\<lparr>size_field := size_field l + 1\<rparr>"
  from push_back_repr [OF Cons.prems, of y] obtain h1 where
    pb: "push_back h l y = (h1, l1, Inr ())"
    and r1: "repr h1 l1 (as @ [length h]) (xs @ [y])"
    and len1: "length h1 = Suc (length h)"
    and f1: "frame h h1 (cells l as)"
    unfolding l1_def by blast
  from Cons.IH [OF r1, of ] obtain h' l' where
    pba: "push_back_all h1 l1 ys = (h', l', Inr ())"
    and r': "repr h' l' ((as @ [length h]) @ [length h1 ..< length h1 + length ys]) ((xs @ [y]) @ ys)"
    and t': "temp_node l' = temp_node l1"
    and len': "length h' = length h1 + length ys"
    and f': "frame h1 h' (cells l1 (as @ [length h]))"
    by blast
  have "[length h ..< Suc (length h + length ys)] =
        length h # [Suc (length h) ..< Suc (length h + length ys)]"
    by (rule upt_conv_Cons) simp
  then have up: "(as @ [length h]) @ [length h1 ..< length h1 + length ys] =
            as @ [length h ..< length h + length (y # ys)]"
    by (simp add: len1 del: upt_Suc)
  have "frame h h' (cells l as)"
    by (rule frame_trans [OF f1 f']) (auto simp: cells_def l1_def)
  with pb pba r' t' len' up show ?case
    by (simp add: len1 l1_def)
qed

lemma init_ctor_repr:
  "\<exists>h' l'. init_ctor d h xs = Some (h', l', Inr ()) \<and>
     repr h' l' [Suc (length h) ..< Suc (length h) + length xs] xs \<and>
     temp_node l' = Some (length h) \<and> frame h h' {}"
proof -
  from default_ctor_repr [of d h] obtain h0 l0 where
    dc: "default_ctor d h = Some (h0, l0)" and r0: "repr h0 l0 [] []"
    and t0: "temp_node l0 = Some (length h)" and len0: "length h0 = Suc (length h)"
    and f0: "frame h h0 {}"
    by blast
  from push_back_all_repr [OF r0, of xs] obtain h' l' where
    pba: "push_back_all h0 l0 xs = (h', l', Inr ())"
    and r': "repr h' l' ([] @ [length h0 ..< length h0 + length xs]) ([] @ xs)"
    and t': "temp_node l' = temp_node l0"
    and f': "frame h0 h' (cells l0 [])"
    by blast
  have "frame h h' {}"
    by (rule frame_trans [OF f0 f']) (auto simp: cells_def t0)
  with dc pba r' t' t0 len0 show ?thesis by (simp add: init_ctor_def)
qed

section \<open>Calls and sequences of calls\<close>

lemma advance_position:
  assumes r: "ring h l as"
  shows "i \<le> length as \<Longrightarrow>
    advance n h (position l as i) =
      (if i + n \<le> length as then Inr (position l as (i + n)) else Inl out_of_range)"
proof (induction n arbitrary: i)
  case 0
  then show ?case by simp
next
  case (Suc n)
  show ?case
  proof (cases "i < length as")
    case True
    with Suc.IH [of "Suc i"] iter_inc_position [OF r True] show ?thesis by simp
  next
    case False
    with Suc.prems have "i = length as" by simp
    then have "iter_inc h (position l as i) = Inl out_of_range"
      by (simp add: iter_inc_def position_def iterator_ctor_def node_pos_end)
    with \<open>i = length as\<close> show ?thesis by simp
  qed
qed

lemma nth_iterator_ring:
  assumes r: "ring h l as"
  shows "nth_iterator h l n =
           (if n \<le> length as then Inr (position l as n) else Inl out_of_range)"
proof -
  from r obtain s where s: "temp_node l = Some s" by (auto dest: ring_sentinel)
  from begin_cl_ring [OF r s] advance_position [OF r, of 0 n] show ?thesis
    by (simp add: nth_iterator_def)
qed

lemma cells_size [simp]: "cells (l\<lparr>size_field := n\<rparr>) as = cells l as"
  by (simp add: cells_def)

lemma pop_front_repr:
  assumes r: "repr h l as xs" and ne: "as \<noteq> []"
  shows "\<exists>h'. pop_front h l = (h', l\<lparr>size_field := size_field l - 1\<rparr>, Inr ()) \<and>
           repr h' (l\<lparr>size_field := size_field l - 1\<rparr>) (tl as) (tl xs) \<and>
           length h' = length h \<and> frame h h' (cells l as)"
proof -
  from r have rg: "ring h l as" by (simp add: repr_def)
  then obtain s where s: "temp_node l = Some s" by (auto dest: ring_sentinel)
  from ne have j: "0 < length as" by simp
  from ne repr_length [OF r] have tl: "remove_at 0 as = tl as" "remove_at 0 xs = tl xs"
    by (simp_all add: remove_at_def drop_Suc)
  from erase_repr_frame [OF r j current_position] begin_cl_ring [OF rg s] show ?thesis
    by (auto simp: pop_front_def discard_def tl)
qed

lemma pop_back_repr:
  assumes r: "repr h l as xs" and ne: "as \<noteq> []"
  shows "\<exists>h'. pop_back h l = (h', l\<lparr>size_field := size_field l - 1\<rparr>, Inr ()) \<and>
           repr h' (l\<lparr>size_field := size_field l - 1\<rparr>) (butlast as) (butlast xs) \<and>
           length h' = length h \<and> frame h h' (cells l as)"
proof -
  from r have rg: "ring h l as" by (simp add: repr_def)
  from ne have j: "length as - 1 < length as" by simp
  from ne repr_length [OF r]
  have bl: "remove_at (length as - Suc 0) as = butlast as"
    "remove_at (length as - Suc 0) xs = butlast xs"
    by (simp_all add: remove_at_def butlast_conv_take)
  have dec: "iter_dec h (end_cl l) = Inr (position l as (length as - 1))"
    using iter_dec_position [OF rg, of "length as"] ne
    by (simp add: end_cl_position [of l as] dec_index_def)
  from erase_repr_frame [OF r j current_position] show ?thesis
    by (auto simp: pop_back_def dec discard_def bl)
qed

lemma pop_empty:
  assumes r: "repr h l [] xs"
  shows "pop_front h l = (h, l, Inl out_of_range)" "pop_back h l = (h, l, Inl out_of_range)"
proof -
  from r have rg: "ring h l []" by (simp add: repr_def)
  then obtain s where s: "temp_node l = Some s" by (auto dest: ring_sentinel)
  from rg s have e: "empty_cl l" by (simp add: ring_def empty_cl_def)
  from begin_cl_ring [OF rg s] e show "pop_front h l = (h, l, Inl out_of_range)"
    by (simp add: pop_front_def erase_def discard_def)
  from iter_dec_end_empty [OF rg] e show "pop_back h l = (h, l, Inl out_of_range)"
    by (simp add: pop_back_def erase_def discard_def)
qed

lemma clear_repr:
  "repr h l as xs \<Longrightarrow>
   \<exists>h'. clear h l = (h', l\<lparr>size_field := 0\<rparr>, Inr ()) \<and>
     repr h' (l\<lparr>size_field := 0\<rparr>) [] [] \<and> length h' = length h \<and> frame h h' (cells l as)"
proof (induction as arbitrary: h l xs)
  case Nil
  then have "size_field l = 0" "xs = []"
    using repr_size [OF Nil] repr_length [OF Nil] by simp_all
  then have eq: "l\<lparr>size_field := 0\<rparr> = l" by simp
  from Nil \<open>size_field l = 0\<close> \<open>xs = []\<close> show ?case
    unfolding eq by (subst clear.simps) (simp add: empty_cl_def frame_refl)
next
  case (Cons a as)
  define l1 where "l1 = l\<lparr>size_field := size_field l - 1\<rparr>"
  from repr_size [OF Cons.prems] repr_length [OF Cons.prems] have ne: "\<not> empty_cl l"
    by (simp add: empty_cl_def)
  from pop_front_repr [OF Cons.prems] obtain h1 where
    pf: "pop_front h l = (h1, l1, Inr ())" and r1: "repr h1 l1 as (tl xs)"
    and len1: "length h1 = length h" and f1: "frame h h1 (cells l (a # as))"
    unfolding l1_def by auto
  from Cons.IH [OF r1] obtain h' where
    cl: "clear h1 l1 = (h', l1\<lparr>size_field := 0\<rparr>, Inr ())"
    and r': "repr h' (l1\<lparr>size_field := 0\<rparr>) [] []"
    and len': "length h' = length h1" and f': "frame h1 h' (cells l1 as)"
    by blast
  have l10: "l1\<lparr>size_field := 0\<rparr> = l\<lparr>size_field := 0\<rparr>" by (simp add: l1_def)
  have "frame h h' (cells l (a # as))"
    by (rule frame_trans [OF f1 f']) (auto simp: cells_def l1_def)
  moreover have "clear h l = clear h1 l1"
    using ne pf by (subst clear.simps) simp
  ultimately show ?case using cl r' len' len1 by (simp add: l10)
qed

lemma iter_assign_repr:
  assumes r: "repr h l as xs" and j: "j < length as"
  shows "\<exists>h'. iter_assign h (position l as j) v = Inr h' \<and> repr h' l as (xs[j := v]) \<and>
           length h' = length h \<and> frame h h' (cells l as)"
proof -
  from r have rg: "ring h l as" by (simp add: repr_def)
  then obtain s where s: "temp_node l = Some s" by (auto dest: ring_sentinel)
  from repr_value [OF r j] obtain n where n: "node_at h (Some (as ! j)) = Some n"
    by (auto simp: get_value_def)
  define h' where "h' = h[as ! j := Some (n\<lparr>node_value := v\<rparr>)]"
  have lt: "as ! j < length h" using n by (rule node_at_Some_less)
  have ia: "iter_assign h (position l as j) v = Inr h'"
    using ring_pos_neq_sentinel [OF rg j] j n
    by (simp add: iter_assign_def position_def iterator_ctor_def node_pos_def set_value_def
        update_node_Some h'_def)
  have nx: "next_of h' a = next_of h a" and pv: "prev_of h' a = prev_of h a" for a
    using n lt by (auto simp: next_of_def prev_of_def get_next_def get_prev_def h'_def node_at_update)
  have vl: "get_value h' (Some a) = (if a = as ! j then Some v else get_value h (Some a))" for a
    using n lt by (auto simp: get_value_def h'_def node_at_update)
  have "chain (next_of h') (s # as @ [s]) = chain (next_of h) (s # as @ [s])"
    by (rule chain_cong) (simp add: nx)
  moreover have "chain (prev_of h') (s # rev as @ [s]) = chain (prev_of h) (s # rev as @ [s])"
    by (rule chain_cong) (simp add: pv)
  ultimately have rg': "ring h' l as" using rg s by (simp add: ring_def)
  from rg s have d: "distinct as" by (simp add: ring_def)
  have "contents h' as = (contents h as)[j := Some v]"
    using d j by (auto simp: contents_def vl list_eq_iff_nth_eq nth_list_update nth_eq_iff_index_eq)
  then have "contents h' as = map Some (xs[j := v])"
    using r by (simp add: repr_def map_update)
  with rg' have r': "repr h' l as (xs[j := v])" by (simp add: repr_def)
  have "frame h h' (cells l as)"
    using j by (auto simp: frame_def h'_def node_at_update cells_def)
  with ia r' show ?thesis by (auto simp: h'_def)
qed

lemma apply_op_repr:
  assumes r: "repr h l as xs"
  shows "\<exists>h' l' as'.
           apply_op h l x = (h', l', if abs_raises x xs then Inl out_of_range else Inr ()) \<and>
           repr h' l' as' (abs_op x xs) \<and> temp_node l' = temp_node l \<and>
           frame h h' (cells l as) \<and> (\<forall>a \<in> set as'. a \<in> set as \<or> length h \<le> a) \<and>
           (abs_raises x xs \<longrightarrow> h' = h \<and> l' = l)"
proof -
  from r have rg: "ring h l as" by (simp add: repr_def)
  then obtain s where s: "temp_node l = Some s" by (auto dest: ring_sentinel)
  note len = repr_length [OF r]
  note nth = nth_iterator_ring [OF rg]
  have ins: ?thesis if x: "apply_op h l x = (case nth_iterator h l n of
        Inl e \<Rightarrow> (h, l, Inl e) | Inr it \<Rightarrow> discard (emplace h l it v))"
      and ab: "abs_op x xs = (if n \<le> length xs then insert_at n v xs else xs)"
      and ar: "abs_raises x xs = (length xs < n)" for n v
  proof (cases "n \<le> length as")
    case True
    from emplace_repr_frame [OF r True current_position, of v] obtain h' where
      "emplace h l (position l as n) v =
           (h', l\<lparr>size_field := size_field l + 1\<rparr>,
            Inr (iterator_ctor (Some (length h)) (temp_node l)))"
      "repr h' (l\<lparr>size_field := size_field l + 1\<rparr>)
           (insert_at n (length h) as) (insert_at n v xs)"
      "frame h h' (cells l as)"
      by blast
    moreover have "\<forall>a \<in> set (insert_at n (length h) as). a \<in> set as \<or> length h \<le> a"
      by (auto simp: insert_at_def dest: in_set_takeD in_set_dropD)
    ultimately show ?thesis using True len
      by (intro exI [of _ h'] exI [of _ "l\<lparr>size_field := size_field l + 1\<rparr>"]
          exI [of _ "insert_at n (length h) as"]) (simp add: x ab ar nth discard_def)
  next
    case False
    with r len show ?thesis
      by (intro exI [of _ h] exI [of _ l] exI [of _ as]) (simp add: x ab ar nth frame_refl)
  qed
  show ?thesis
  proof (cases x)
    case (Push_back v)
    from push_back_repr [OF r, of v] obtain h' where
      "push_back h l v = (h', l\<lparr>size_field := size_field l + 1\<rparr>, Inr ())"
      "repr h' (l\<lparr>size_field := size_field l + 1\<rparr>) (as @ [length h]) (xs @ [v])"
      "frame h h' (cells l as)"
      by blast
    then show ?thesis
      by (intro exI [of _ h'] exI [of _ "l\<lparr>size_field := size_field l + 1\<rparr>"]
          exI [of _ "as @ [length h]"]) (auto simp: Push_back)
  next
    case (Push_front v)
    have "apply_op h l x = (case nth_iterator h l 0 of
        Inl e \<Rightarrow> (h, l, Inl e) | Inr it \<Rightarrow> discard (emplace h l it v))"
      using begin_cl_ring [OF rg s]
      by (simp add: Push_front push_front_def nth_iterator_def insert_cl_def)
    from ins [OF this] show ?thesis by (simp add: Push_front insert_at_def)
  next
    case (Insert n v)
    show ?thesis by (rule ins [where n = n and v = v]) (simp_all add: Insert insert_cl_def cong: sum.case_cong)
  next
    case (Emplace n v)
    show ?thesis by (rule ins [where n = n and v = v]) (simp_all add: Emplace)
  next
    case (Erase n)
    show ?thesis
    proof (cases "n < length as")
      case True
      from erase_repr_frame [OF r True current_position] obtain h' where
        "erase h l (position l as n) =
           (h', l\<lparr>size_field := size_field l - 1\<rparr>,
            Inr (iterator_ctor (node_pos l as (Suc n)) (temp_node l)))"
        "repr h' (l\<lparr>size_field := size_field l - 1\<rparr>) (remove_at n as) (remove_at n xs)"
        "frame h h' (cells l as)"
        by blast
      moreover have "\<forall>a \<in> set (remove_at n as). a \<in> set as \<or> length h \<le> a"
        by (auto simp: remove_at_def dest: in_set_takeD in_set_dropD)
      ultimately show ?thesis using True len
        by (intro exI [of _ h'] exI [of _ "l\<lparr>size_field := size_field l - 1\<rparr>"]
            exI [of _ "remove_at n as"]) (simp add: Erase nth discard_def)
    next
      case False
      have "erase h l (position l as (length as)) = (h, l, Inl out_of_range)"
        by (simp add: erase_def current_position node_pos_end Let_def)
      with False r len show ?thesis
        by (intro exI [of _ h] exI [of _ l] exI [of _ as])
           (auto simp: Erase nth frame_refl discard_def not_less)
    qed
  next
    case Pop_front
    show ?thesis
    proof (cases "as = []")
      case True
      with r len pop_empty(1) [of h l xs] show ?thesis
        by (intro exI [of _ h] exI [of _ l] exI [of _ as]) (simp add: Pop_front frame_refl)
    next
      case False
      from pop_front_repr [OF r False] obtain h' where
        "pop_front h l = (h', l\<lparr>size_field := size_field l - 1\<rparr>, Inr ())"
        "repr h' (l\<lparr>size_field := size_field l - 1\<rparr>) (tl as) (tl xs)"
        "frame h h' (cells l as)"
        by blast
      then show ?thesis using False len
        by (intro exI [of _ h'] exI [of _ "l\<lparr>size_field := size_field l - 1\<rparr>"]
            exI [of _ "tl as"]) (auto simp: Pop_front dest: list.set_sel(2))
    qed
  next
    case Pop_back
    show ?thesis
    proof (cases "as = []")
      case True
      with r len pop_empty(2) [of h l xs] show ?thesis
        by (intro exI [of _ h] exI [of _ l] exI [of _ as]) (simp add: Pop_back frame_refl)
    next
      case False
      from pop_back_repr [OF r False] obtain h' where
        "pop_back h l = (h', l\<lparr>size_field := size_field l - 1\<rparr>, Inr ())"
        "repr h' (l\<lparr>size_field := size_field l - 1\<rparr>) (butlast as) (butlast xs)"
        "frame h h' (cells l as)"
        by blast
      then show ?thesis using False len
        by (intro exI [of _ h'] exI [of _ "l\<lparr>size_field := size_field l - 1\<rparr>"]
            exI [of _ "butlast as"]) (auto simp: Pop_back dest: in_set_butlastD)
    qed
  next
    case Clear
    from clear_repr [OF r] obtain h' where
      "clear h l = (h', l\<lparr>size_field := 0\<rparr>, Inr ())"
      "repr h' (l\<lparr>size_field := 0\<rparr>) [] []" "frame h h' (cells l as)"
      by blast
    then show ?thesis
      by (intro exI [of _ h'] exI [of _ "l\<lparr>size_field := 0\<rparr>"] exI [of _ "[]"])
         (simp add: Clear)
  next
    case (Assign n v)
    show ?thesis
    proof (cases "n < length as")
      case True
      from iter_assign_repr [OF r True, of v] obtain h' where
        "iter_assign h (position l as n) v = Inr h'" "repr h' l as (xs[n := v])"
        "frame h h' (cells l as)"
        by blast
      then show ?thesis using True len
        by (intro exI [of _ h'] exI [of _ l] exI [of _ as]) (simp add: Assign nth)
    next
      case False
      have "iter_assign h (position l as (length as)) v = Inl out_of_range"
        by (simp add: iter_assign_def position_def iterator_ctor_def node_pos_end)
      with False r len show ?thesis
        by (intro exI [of _ h] exI [of _ l] exI [of _ as])
           (auto simp: Assign nth frame_refl not_less)
    qed
  qed
qed

lemma run_repr:
  "repr h l as xs \<Longrightarrow>
   \<exists>h' l' as'. run h l ops = (h', l') \<and> repr h' l' as' (foldl (\<lambda>xs x. abs_op x xs) xs ops) \<and>
     temp_node l' = temp_node l \<and> frame h h' (cells l as) \<and>
     (\<forall>a \<in> set as'. a \<in> set as \<or> length h \<le> a)"
proof (induction ops arbitrary: h l as xs)
  case Nil
  then show ?case by (auto simp: frame_refl)
next
  case (Cons x ops)
  from apply_op_repr [OF Cons.prems, of x] obtain h1 l1 as1 r1 where
    ap: "apply_op h l x = (h1, l1, r1)" and r1: "repr h1 l1 as1 (abs_op x xs)"
    and t1: "temp_node l1 = temp_node l" and f1: "frame h h1 (cells l as)"
    and s1: "\<forall>a \<in> set as1. a \<in> set as \<or> length h \<le> a"
    by blast
  from Cons.IH [OF r1] obtain h' l' as' where
    rn: "run h1 l1 ops = (h', l')"
    and r': "repr h' l' as' (foldl (\<lambda>xs x. abs_op x xs) (abs_op x xs) ops)"
    and t': "temp_node l' = temp_node l1" and f': "frame h1 h' (cells l1 as1)"
    and s': "\<forall>a \<in> set as'. a \<in> set as1 \<or> length h1 \<le> a"
    by blast
  from f1 have le: "length h \<le> length h1" by (simp add: frame_def)
  have "frame h h' (cells l as)"
    by (rule frame_trans [OF f1 f']) (use s1 t1 in \<open>auto simp: cells_def\<close>)
  moreover have "\<forall>a \<in> set as'. a \<in> set as \<or> length h \<le> a"
    using s' s1 le by (meson le_trans)
  ultimately show ?case using ap rn r' t' t1
    by (intro exI [of _ h'] exI [of _ l'] exI [of _ as']) simp
qed

lemma ring_repr:
  assumes r: "ring h l as"
  shows "\<exists>xs. repr h l as xs"
proof -
  from r obtain s where s: "temp_node l = Some s" by (auto dest: ring_sentinel)
  from r s have c: "chain (next_of h) (s # as @ [s])" by (simp add: ring_def)
  have "\<exists>v. get_value h (Some a) = Some v" if "a \<in> set as" for a
  proof -
    from that have "a \<in> set (butlast (s # as @ [s]))" by (simp add: butlast_append)
    from chain_defined [OF c this] obtain b where "next_of h a = Some (Some b)" by blast
    then show ?thesis by (auto simp: get_value_def dest: next_of_node)
  qed
  then have "contents h as = map Some (map (\<lambda>a. the (get_value h (Some a))) as)"
    by (auto simp: contents_def)
  with r show ?thesis unfolding repr_def by blast
qed

lemma begin_eq_end:
  assumes r: "ring h l as"
  shows "begin_cl h l = Some (position l as 0)"
    and "iter_eq (position l as 0) (end_cl l) \<longleftrightarrow> size_cl l = 0"
proof -
  from r obtain s where s: "temp_node l = Some s" by (auto dest: ring_sentinel)
  show "begin_cl h l = Some (position l as 0)" by (rule begin_cl_ring [OF r s])
  from r s have "size_cl l = length as" by (simp add: ring_def size_cl_def)
  with iter_neq_end [OF r, of 0] show "iter_eq (position l as 0) (end_cl l) \<longleftrightarrow> size_cl l = 0"
    by (simp add: iter_neq_def)
qed

section \<open>Copying and assignment\<close>

lemma push_back_range_repr:
  "repr h other bs ys \<Longrightarrow> repr h l as xs \<Longrightarrow> cells l as \<inter> cells other bs = {} \<Longrightarrow>
   j \<le> length bs \<Longrightarrow>
   \<exists>h' l' as'. push_back_range h l (position other bs j) (end_cl other) = Some (h', l', Inr ()) \<and>
     repr h' l' (as @ as') (xs @ drop j ys) \<and> temp_node l' = temp_node l \<and>
     repr h' other bs ys \<and> frame h h' (cells l as) \<and> (\<forall>a \<in> set as'. length h \<le> a)"
proof (induction "length bs - j" arbitrary: j h l as xs)
  case 0
  then have j: "j = length bs" by simp
  from "0.prems"(1) have rgo: "ring h other bs" by (simp add: repr_def)
  have "push_back_range h l (position other bs j) (end_cl other) = Some (h, l, Inr ())"
    using iter_neq_end [OF rgo, of j] j by (subst push_back_range.simps) simp
  with 0 j repr_length [OF "0.prems"(1)] show ?case
    by (intro exI [of _ h] exI [of _ l] exI [of _ "[]"]) (simp add: frame_refl)
next
  case (Suc n)
  note ro = Suc.prems(1) and r = Suc.prems(2) and dj = Suc.prems(3)
  from ro have rgo: "ring h other bs" by (simp add: repr_def)
  from Suc.hyps(2) have j: "j < length bs" and n: "n = length bs - Suc j" by simp_all
  define l1 where "l1 = l\<lparr>size_field := size_field l + 1\<rparr>"
  from push_back_repr [OF r, of "ys ! j"] obtain h1 where
    pb: "push_back h l (ys ! j) = (h1, l1, Inr ())"
    and r1: "repr h1 l1 (as @ [length h]) (xs @ [ys ! j])"
    and f1: "frame h h1 (cells l as)"
    unfolding l1_def by blast
  have ro1: "repr h1 other bs ys"
    by (rule repr_frame [OF ro f1]) (use dj in blast)
  then have rgo1: "ring h1 other bs" by (simp add: repr_def)
  have fresh: "length h \<notin> cells other bs" using cells_less [OF rgo] by blast
  have dj1: "cells l1 (as @ [length h]) \<inter> cells other bs = {}"
    using dj fresh by (auto simp: cells_def l1_def)
  from j have sj: "Suc j \<le> length bs" by simp
  from Suc.hyps(1) [OF n ro1 r1 dj1 sj] obtain h' l' as' where
    rec: "push_back_range h1 l1 (position other bs (Suc j)) (end_cl other) = Some (h', l', Inr ())"
    and r': "repr h' l' ((as @ [length h]) @ as') ((xs @ [ys ! j]) @ drop (Suc j) ys)"
    and t': "temp_node l' = temp_node l1"
    and ro': "repr h' other bs ys"
    and f': "frame h1 h' (cells l1 (as @ [length h]))"
    and ge: "\<forall>a \<in> set as'. length h1 \<le> a"
    by blast
  from f1 have le: "length h \<le> length h1" by (simp add: frame_def)
  have step: "push_back_range h l (position other bs j) (end_cl other) =
      push_back_range h1 l1 (position other bs (Suc j)) (end_cl other)"
    using iter_neq_end [OF rgo, of j] j iter_deref_position [OF ro j] pb
      iter_inc_position [OF rgo1 j]
    by (subst push_back_range.simps) simp
  have dr: "(xs @ [ys ! j]) @ drop (Suc j) ys = xs @ drop j ys"
    using j repr_length [OF ro] by (simp add: Cons_nth_drop_Suc)
  have fr: "frame h h' (cells l as)"
    by (rule frame_trans [OF f1 f']) (auto simp: cells_def l1_def)
  have "\<forall>a \<in> set (length h # as'). length h \<le> a" using ge le by auto
  with step rec r' t' ro' fr dr show ?case
    by (intro exI [of _ h'] exI [of _ l'] exI [of _ "length h # as'"]) (simp add: l1_def)
qed

lemma copy_ctor_repr:
  assumes ro: "repr h other bs ys"
  shows "\<exists>h' l' as'. copy_ctor d h other = Some (h', l', Inr ()) \<and>
           repr h' l' as' ys \<and> repr h' other bs ys \<and>
           cells l' as' \<inter> cells other bs = {} \<and> frame h h' {} \<and>
           (\<forall>a \<in> cells l' as'. length h \<le> a)"
proof -
  from ro have rgo: "ring h other bs" by (simp add: repr_def)
  from default_ctor_repr [of d h] obtain h0 l0 where
    dc: "default_ctor d h = Some (h0, l0)" and r0: "repr h0 l0 [] []"
    and t0: "temp_node l0 = Some (length h)" and len0: "length h0 = Suc (length h)"
    and f0: "frame h h0 {}"
    by blast
  have ro0: "repr h0 other bs ys" by (rule repr_frame [OF ro f0]) simp
  then have rgo0: "ring h0 other bs" by (simp add: repr_def)
  then obtain s where s: "temp_node other = Some s" by (auto dest: ring_sentinel)
  have b: "begin_cl h0 other = Some (position other bs 0)" by (rule begin_cl_ring [OF rgo0 s])
  have old: "a < length h" if "a \<in> cells other bs" for a using cells_less [OF rgo that] .
  have dj: "cells l0 [] \<inter> cells other bs = {}" using old by (auto simp: cells_def t0)
  from push_back_range_repr [OF ro0 r0 dj, of 0] obtain h' l' as' where
    pbr: "push_back_range h0 l0 (position other bs 0) (end_cl other) = Some (h', l', Inr ())"
    and r': "repr h' l' as' ys" and t': "temp_node l' = temp_node l0"
    and ro': "repr h' other bs ys" and f': "frame h0 h' (cells l0 [])"
    and ge: "\<forall>a \<in> set as'. length h0 \<le> a"
    by auto
  have fr: "frame h h' {}"
    by (rule frame_trans [OF f0 f']) (auto simp: cells_def t0)
  have new: "\<forall>a \<in> cells l' as'. length h \<le> a"
    using ge len0 by (auto simp: cells_def t' t0)
  then have "cells l' as' \<inter> cells other bs = {}" using old by fastforce
  with dc b pbr r' ro' fr new show ?thesis
    by (intro exI [of _ h'] exI [of _ l'] exI [of _ as']) (simp add: copy_ctor_def)
qed

section \<open>The invariant in the words of the specification\<close>

lemma ring_cong:
  "temp_node l' = temp_node l \<Longrightarrow> size_field l' = size_field l \<Longrightarrow> ring h l' as = ring h l as"
  by (simp add: ring_def split: option.splits)

lemma ring_links_agree:
  assumes r: "ring h l as"
  shows "list_all (links_agree h) (ring_nodes l as)"
proof -
  from r obtain s where s: "temp_node l = Some s" by (auto dest: ring_sentinel)
  have fwd: "do { q \<leftarrow> get_next h p; get_prev h q } = Some p"
    if "j \<le> length as" "pred_pos l as j = p" for j p
    using ring_links_index [OF r that(1)] that(2) by (auto simp: next_of_def prev_of_def)
  have bwd: "do { q \<leftarrow> get_prev h p; get_next h q } = Some p"
    if "j \<le> length as" "node_pos l as j = p" for j p
    using ring_links_index [OF r that(1)] that(2) by (auto simp: next_of_def prev_of_def)
  have "links_agree h (temp_node l)"
    unfolding links_agree_def
    using fwd [of 0 "temp_node l"] bwd [of "length as" "temp_node l"]
    by (simp add: pred_pos_def node_pos_end)
  moreover have "links_agree h (Some a)" if "a \<in> set as" for a
  proof -
    from that obtain i where i: "i < length as" "as ! i = a" by (auto simp: in_set_conv_nth)
    then show ?thesis
      unfolding links_agree_def
      using fwd [of "Suc i" "Some a"] bwd [of i "Some a"]
      by (simp add: pred_pos_def node_pos_def)
  qed
  ultimately show ?thesis by (simp add: ring_nodes_def list_all_iff)
qed

lemma ring_invariantI: "ring h l as \<Longrightarrow> ring_invariant h l as"
  using ring_links_agree [of h l as]
  by (auto simp: ring_invariant_def size_cl_def ring_def split: option.splits)

lemma copy_assign_repr:
  assumes r: "repr h l as xs" and ro: "repr h other bs ys"
    and dj: "cells l as \<inter> cells other bs = {}" and ne: "this \<noteq> that"
  shows "\<exists>h' l' as'. copy_assign h this l that other = Some (h', l', Inr ()) \<and>
           repr h' l' as' ys \<and> repr h' other bs ys \<and> temp_node l' = temp_node l \<and>
           frame h h' (cells l as) \<and> (\<forall>a \<in> set as'. length h \<le> a)"
proof -
  define l0 where "l0 = l\<lparr>size_field := 0\<rparr>"
  from clear_repr [OF r] obtain h0 where
    cl: "clear h l = (h0, l0, Inr ())" and r0: "repr h0 l0 [] []"
    and len0: "length h0 = length h" and f0: "frame h h0 (cells l as)"
    unfolding l0_def by blast
  have ro0: "repr h0 other bs ys" by (rule repr_frame [OF ro f0]) (use dj in blast)
  then have rgo0: "ring h0 other bs" by (simp add: repr_def)
  then obtain s where s: "temp_node other = Some s" by (auto dest: ring_sentinel)
  have b: "begin_cl h0 other = Some (position other bs 0)" by (rule begin_cl_ring [OF rgo0 s])
  have dj0: "cells l0 [] \<inter> cells other bs = {}" using dj by (auto simp: cells_def l0_def)
  from push_back_range_repr [OF ro0 r0 dj0, of 0] obtain h' l' as' where
    pbr: "push_back_range h0 l0 (position other bs 0) (end_cl other) = Some (h', l', Inr ())"
    and r': "repr h' l' as' ys" and ro': "repr h' other bs ys"
    and t': "temp_node l' = temp_node l0" and f': "frame h0 h' (cells l0 [])"
    and ge: "\<forall>a \<in> set as'. length h0 \<le> a"
    by auto
  have fr: "frame h h' (cells l as)"
    by (rule frame_trans [OF f0 f']) (auto simp: cells_def l0_def)
  from cl b pbr ne have "copy_assign h this l that other = Some (h', l', Inr ())"
    by (simp add: copy_assign_def)
  with r' ro' t' fr ge len0 show ?thesis
    by (intro exI [of _ h'] exI [of _ l'] exI [of _ as']) (simp add: l0_def)
qed

lemma move_assign_repr:
  assumes r: "repr h l as xs" and ro: "repr h other bs ys"
    and dj: "cells l as \<inter> cells other bs = {}" and ne: "this \<noteq> that"
  shows "\<exists>h'. move_assign h this l that other =
             (h', \<lparr>temp_node = temp_node other, size_field = size_field other\<rparr>,
              other\<lparr>temp_node := None, size_field := 0\<rparr>, Inr ()) \<and>
           repr h' \<lparr>temp_node = temp_node other, size_field = size_field other\<rparr> bs ys \<and>
           length h' = length h \<and> frame h h' (cells l as)"
proof -
  define l0 where "l0 = l\<lparr>size_field := 0\<rparr>"
  define l' :: "'a CircularList" where
    "l' = \<lparr>temp_node = temp_node other, size_field = size_field other\<rparr>"
  from clear_repr [OF r] obtain h0 where
    cl: "clear h l = (h0, l0, Inr ())" and r0: "repr h0 l0 [] []"
    and len0: "length h0 = length h" and f0: "frame h h0 (cells l as)"
    unfolding l0_def by blast
  from r0 have rg0: "ring h0 l0 []" by (simp add: repr_def)
  then obtain s where s: "temp_node l0 = Some s" by (auto dest: ring_sentinel)
  from ring_first [OF rg0 s] obtain n where n: "node_at h0 (Some s) = Some n"
    by (auto simp: get_next_def)
  have del: "delete_Node h0 (temp_node l0) = Some (h0[s := None])"
    using n by (simp add: s delete_Node_Some)
  have ro0: "repr h0 other bs ys" by (rule repr_frame [OF ro f0]) (use dj in blast)
  have f1: "frame h0 (h0[s := None]) {s}" by (simp add: frame_def node_at_update)
  have sc: "s \<in> cells l as" using s by (simp add: cells_def l0_def)
  with dj have "cells other bs \<inter> {s} = {}" by blast
  from repr_frame [OF ro0 f1 this] have "repr (h0[s := None]) other bs ys" .
  then have r': "repr (h0[s := None]) l' bs ys"
    using ring_cong [of l' other "h0[s := None]" bs] by (simp add: repr_def l'_def)
  have fr: "frame h (h0[s := None]) (cells l as)"
    by (rule frame_trans [OF f0 f1]) (use sc in simp)
  have eq: "l0\<lparr>temp_node := temp_node other, size_field := size_field other\<rparr> = l'"
    by (simp add: l'_def)
  from cl del ne have "move_assign h this l that other =
      (h0[s := None], l', other\<lparr>temp_node := None, size_field := 0\<rparr>, Inr ())"
    by (simp add: move_assign_def eq)
  with r' fr len0 show ?thesis
    unfolding l'_def by (intro exI [of _ "h0[s := None]"]) simp
qed

lemma self_assign:
  "copy_assign h this l this other = Some (h, l, Inr ())"
  "move_assign h this l this other = (h, l, other, Inr ())"
  by (simp_all add: copy_assign_def move_assign_def)

section \<open>The nodes reachable from the sentinel\<close>

text \<open>A ring is found by walking from its sentinel, so an object has at most one ring.\<close>

lemma walk_chain:
  "chain nxt (cs @ [s]) \<Longrightarrow> s \<notin> set cs \<Longrightarrow> length cs \<le> n \<Longrightarrow>
   walk n nxt s (hd (cs @ [s])) = cs"
proof (induction cs arbitrary: n)
  case Nil
  then show ?case by (cases n) simp_all
next
  case (Cons a cs)
  from Cons.prems(3) obtain m where n: "n = Suc m" and m: "length cs \<le> m"
    by (cases n) simp_all
  from Cons.prems(1) have nx: "nxt a = Some (Some (hd (cs @ [s])))"
    and c: "chain nxt (cs @ [s])"
    by (cases cs; simp)+
  from Cons.prems(2) have ne: "a \<noteq> s" and ns: "s \<notin> set cs" by auto
  from Cons.IH [OF c ns m] nx ne show ?case by (simp add: n)
qed

lemma distinct_length_le:
  assumes "distinct xs" "\<forall>x \<in> set xs. x < (n::nat)"
  shows "length xs \<le> n"
proof -
  from assms(2) have "set xs \<subseteq> {..<n}" by auto
  then have "card (set xs) \<le> card {..<n}" by (intro card_mono) simp_all
  with assms(1) show ?thesis by (simp add: distinct_card)
qed

lemma ring_nodes_of:
  assumes r: "ring h l as"
  shows "nodes_of h l = as"
proof -
  from r obtain s where s: "temp_node l = Some s" by (auto dest: ring_sentinel)
  from r s have d: "distinct (s # as)" and c: "chain (next_of h) (s # as @ [s])"
    by (simp_all add: ring_def)
  from c have nx: "next_of h s = Some (Some (hd (as @ [s])))"
    and c': "chain (next_of h) (as @ [s])"
    by (cases as; simp)+
  from ring_less [OF r s] have "\<forall>a \<in> set as. a < length h" by simp
  with d have "length as \<le> length h" by (intro distinct_length_le) simp_all
  from walk_chain [OF c' _ this] d nx s show ?thesis by (simp add: nodes_of_def)
qed

lemma no_other_ring:
  "\<not> ring_invariant h l (nodes_of h l) \<Longrightarrow> \<not> ring_invariant h l as"
  using ring_nodes_of [of h l as] by (auto simp: ring_invariant_def)

section \<open>Facts about several containers in one heap\<close>

lemma holds_ringI:
  assumes "ring h l as"
  shows "holds_ring h l" "footprint h l = cells l as" "nodes_of h l = as"
  using assms ring_nodes_of [OF assms] by (simp_all add: holds_ring_def footprint_def)

lemma holds_ring_repr:
  assumes "holds_ring h l"
  shows "\<exists>xs. repr h l (nodes_of h l) xs"
  using assms ring_repr by (auto simp: holds_ring_def)

lemma moved_from_nodes [simp]: "temp_node l = None \<Longrightarrow> nodes_of h l = []"
  by (simp add: nodes_of_def)

lemma footprint_moved_from [simp]: "moved_from l \<Longrightarrow> footprint h l = {}"
  by (simp add: footprint_def moved_from_def cells_def)

lemma moved_from_not_ring: "moved_from l \<Longrightarrow> \<not> holds_ring h l"
  by (simp add: moved_from_def holds_ring_def ring_def)

lemma footprint_less:
  assumes "moved_from l \<or> holds_ring h l" "a \<in> footprint h l"
  shows "a < length h"
proof (cases "moved_from l")
  case True
  with assms(2) show ?thesis by simp
next
  case False
  with assms have "ring h l (nodes_of h l)" "a \<in> cells l (nodes_of h l)"
    by (simp_all add: holds_ring_def footprint_def)
  then show ?thesis by (rule cells_less)
qed

lemma ok_frame:
  assumes ok: "moved_from l \<or> holds_ring h l" and f: "frame h h' F"
    and d: "footprint h l \<inter> F = {}"
  shows "moved_from l \<or> holds_ring h' l" "footprint h' l = footprint h l"
proof -
  show "moved_from l \<or> holds_ring h' l"
  proof (cases "moved_from l")
    case False
    with ok have r: "ring h l (nodes_of h l)" by (simp add: holds_ring_def)
    from ring_frame [OF r f] d have "ring h' l (nodes_of h l)" by (simp add: footprint_def)
    then show ?thesis by (simp add: holds_ringI)
  qed simp
  show "footprint h' l = footprint h l"
  proof (cases "moved_from l")
    case False
    with ok have r: "ring h l (nodes_of h l)" by (simp add: holds_ring_def)
    from ring_frame [OF r f] d have "ring h' l (nodes_of h l)" by (simp add: footprint_def)
    then show ?thesis by (simp add: holds_ringI footprint_def)
  qed simp
qed

lemma same_fields:
  assumes "temp_node l' = temp_node l" "size_field l' = size_field l"
  shows "nodes_of h l' = nodes_of h l" "footprint h l' = footprint h l"
    "holds_ring h l' = holds_ring h l" "moved_from l' = moved_from l"
  using assms ring_cong [of l' l h]
  by (simp_all add: nodes_of_def footprint_def holds_ring_def moved_from_def cells_def)

lemma object_Some_less: "object os i = Some l \<Longrightarrow> i < length os"
  by (simp add: object_def split: if_splits)

lemma object_nth: "object os i = Some l \<Longrightarrow> os ! i = Some l"
  by (simp add: object_def split: if_splits)

lemma object_update:
  "object (os[i := x]) k = (if k = i \<and> i < length os then x else object os k)"
  by (simp add: object_def)

lemma object_append:
  "object (os @ [x]) k = (if k = length os then x else object os k)"
  by (simp add: object_def nth_append)

lemma object_update_id: "object os i = Some l \<Longrightarrow> os[i := Some l] = os"
  by (simp add: object_def list_update_same_conv split: if_splits)

lemma sound_empty: "sound h []"
  by (simp add: sound_def object_def)

lemma sound_remove:
  assumes "sound h os"
  shows "sound h (os[i := None])"
  using assms unfolding sound_def object_update
  by (metis option.distinct(1))

lemma sound_update:
  assumes s: "sound h os" and ok: "moved_from l' \<or> holds_ring h l'"
    and d: "\<And>k other. k \<noteq> i \<Longrightarrow> object os k = Some other \<Longrightarrow>
              footprint h other \<inter> footprint h l' = {}"
  shows "sound h (os[i := Some l'])"
  unfolding sound_def object_update
proof (intro conjI allI impI)
  fix k l
  assume "(if k = i \<and> i < length os then Some l' else object os k) = Some l"
  with s ok show "moved_from l \<or> holds_ring h l"
    by (auto simp: sound_def split: if_splits)
next
  fix k j l other
  assume a: "k \<noteq> j \<and> (if k = i \<and> i < length os then Some l' else object os k) = Some l \<and>
    (if j = i \<and> i < length os then Some l' else object os j) = Some other"
  show "footprint h l \<inter> footprint h other = {}"
  proof (cases "k = i \<and> i < length os")
    case True
    with a have "l = l'" "j \<noteq> i" "object os j = Some other" by (auto split: if_splits)
    with d [of j other] show ?thesis by blast
  next
    case k: False
    show ?thesis
    proof (cases "j = i \<and> i < length os")
      case True
      with a k have "other = l'" "k \<noteq> i" "object os k = Some l" by (auto split: if_splits)
      with d [of k l] show ?thesis by blast
    next
      case False
      with a k have "object os k = Some l" "object os j = Some other" "k \<noteq> j"
        by (auto split: if_splits)
      with s show ?thesis unfolding sound_def by blast
    qed
  qed
qed

lemma sound_append:
  assumes s: "sound h os" and ok: "moved_from l' \<or> holds_ring h l'"
    and d: "\<And>k other. object os k = Some other \<Longrightarrow>
              footprint h other \<inter> footprint h l' = {}"
  shows "sound h (os @ [Some l'])"
  unfolding sound_def object_append
proof (intro conjI allI impI)
  fix k l
  assume "(if k = length os then Some l' else object os k) = Some l"
  with s ok show "moved_from l \<or> holds_ring h l"
    by (auto simp: sound_def split: if_splits)
next
  fix k j l other
  assume a: "k \<noteq> j \<and> (if k = length os then Some l' else object os k) = Some l \<and>
    (if j = length os then Some l' else object os j) = Some other"
  show "footprint h l \<inter> footprint h other = {}"
  proof (cases "k = length os")
    case True
    with a have "l = l'" "object os j = Some other" by (auto split: if_splits)
    with d [of j other] show ?thesis by blast
  next
    case k: False
    show ?thesis
    proof (cases "j = length os")
      case True
      with a k have "other = l'" "object os k = Some l" by (auto split: if_splits)
      with d [of k l] show ?thesis by blast
    next
      case False
      with a k have "object os k = Some l" "object os j = Some other" "k \<noteq> j"
        by (auto split: if_splits)
      with s show ?thesis unfolding sound_def by blast
    qed
  qed
qed

lemma sound_frame:
  assumes s: "sound h os" and f: "frame h h' F"
    and d: "\<And>k other. object os k = Some other \<Longrightarrow> footprint h other \<inter> F = {}"
  shows "sound h' os"
proof -
  have ok: "moved_from l \<or> holds_ring h l" if "object os k = Some l" for k l
    using s that unfolding sound_def by blast
  have same: "footprint h' l = footprint h l" if "object os k = Some l" for k l
    using ok_frame(2) [OF ok [OF that] f d [OF that]] .
  show ?thesis
    unfolding sound_def
  proof (intro conjI allI impI)
    fix k l assume o: "object os k = Some l"
    from ok_frame(1) [OF ok [OF o] f d [OF o]] show "moved_from l \<or> holds_ring h' l" .
  next
    fix k j l other
    assume a: "k \<noteq> j \<and> object os k = Some l \<and> object os j = Some other"
    then have "footprint h l \<inter> footprint h other = {}" using s unfolding sound_def by blast
    with a same [of k l] same [of j other]
    show "footprint h' l \<inter> footprint h' other = {}" by simp
  qed
qed

text \<open>A call on the object at \<open>i\<close> that stays within its cells and fresh ones.\<close>

lemma sound_step:
  assumes s: "sound h os" and o: "object os i = Some l"
    and f: "frame h h' (footprint h l)"
    and ok': "moved_from l' \<or> holds_ring h' l'"
    and fp: "footprint h' l' \<subseteq> footprint h l \<union> {a. length h \<le> a}"
  shows "sound h' (os[i := Some l'])"
proof -
  have ok: "moved_from x \<or> holds_ring h x" if "object os k = Some x" for k x
    using s that unfolding sound_def by blast
  have dj: "footprint h x \<inter> footprint h l = {}" if "k \<noteq> i" "object os k = Some x" for k x
    using s that o unfolding sound_def by blast
  have s1: "sound h (os[i := None])" by (rule sound_remove [OF s])
  have s2: "sound h' (os[i := None])"
  proof (rule sound_frame [OF s1 f])
    fix k x assume "object (os[i := None]) k = Some x"
    then have "k \<noteq> i" "object os k = Some x"
      using object_Some_less [OF o] by (auto simp: object_update split: if_splits)
    then show "footprint h x \<inter> footprint h l = {}" by (rule dj)
  qed
  have "sound h' (os[i := None, i := Some l'])"
  proof (rule sound_update [OF s2 ok'])
    fix k x assume k: "k \<noteq> i" and "object (os[i := None]) k = Some x"
    then have ox: "object os k = Some x" by (auto simp: object_update split: if_splits)
    from ok_frame(2) [OF ok [OF ox] f dj [OF k ox]]
    have "footprint h' x = footprint h x" .
    moreover have "\<forall>a \<in> footprint h x. a < length h"
      using footprint_less [OF ok [OF ox]] by blast
    ultimately show "footprint h' x \<inter> footprint h' l' = {}"
      using fp dj [OF k ox] by fastforce
  qed
  then show ?thesis by simp
qed

text \<open>A constructor: the new object lies in fresh cells.\<close>

lemma sound_construct:
  assumes s: "sound h os" and f: "frame h h' {}"
    and ok': "moved_from l' \<or> holds_ring h' l'"
    and fp: "\<forall>a \<in> footprint h' l'. length h \<le> a"
  shows "sound h' (os @ [Some l'])"
proof -
  have ok: "moved_from x \<or> holds_ring h x" if "object os k = Some x" for k x
    using s that unfolding sound_def by blast
  have s1: "sound h' os" by (rule sound_frame [OF s f]) simp
  show ?thesis
  proof (rule sound_append [OF s1 ok'])
    fix k x assume ox: "object os k = Some x"
    from ok_frame(2) [OF ok [OF ox] f] have "footprint h' x = footprint h x" by simp
    moreover have "\<forall>a \<in> footprint h x. a < length h"
      using footprint_less [OF ok [OF ox]] by blast
    ultimately show "footprint h' x \<inter> footprint h' l' = {}"
      using fp by fastforce
  qed
qed

section \<open>Calls on objects that were moved from\<close>

lemma begin_moved_from: "temp_node l = None \<Longrightarrow> begin_cl h l = None"
  by (simp add: begin_cl_def get_next_def)

lemma push_back_moved_from:
  "temp_node l = None \<Longrightarrow> push_back h l v = (h, l, Inl undefined_behaviour)"
  by (simp add: push_back_def insert_cl_def emplace_def end_cl_def iterator_ctor_def
      new_Node_def set_next_def update_node_def node_at_def get_prev_def or_undefined_def
      discard_def)

lemma clear_empty: "size_field l = 0 \<Longrightarrow> clear h l = (h, l, Inr ())"
  by (subst clear.simps) (simp add: empty_cl_def)

lemma apply_op_moved_from:
  assumes "moved_from l"
  shows "apply_op h l x = (h, l, if x = Clear then Inr () else Inl undefined_behaviour)"
proof -
  from assms have t: "temp_node l = None" and z: "size_field l = 0"
    by (simp_all add: moved_from_def)
  have nth: "nth_iterator h l n = Inl undefined_behaviour" for n
    by (simp add: nth_iterator_def begin_moved_from [OF t])
  have dec: "iter_dec h (end_cl l) = Inl undefined_behaviour"
    by (simp add: iter_dec_def end_cl_def iterator_ctor_def t get_prev_def)
  show ?thesis
    by (cases x)
       (simp_all add: push_back_moved_from [OF t] push_front_def begin_moved_from [OF t] nth
          pop_front_def pop_back_def dec clear_empty [OF z])
qed

lemma release:
  assumes ok: "moved_from l \<or> holds_ring h l"
  shows "\<exists>h0 h1. clear h l = (h0, l\<lparr>size_field := 0\<rparr>, Inr ()) \<and>
           delete_Node h0 (temp_node l) = Some h1 \<and> length h1 = length h \<and>
           frame h h1 (footprint h l)"
proof (cases "moved_from l")
  case True
  then have t: "temp_node l = None" and z: "size_field l = 0" by (simp_all add: moved_from_def)
  from z have eq: "l\<lparr>size_field := 0\<rparr> = l" by simp
  show ?thesis
    unfolding eq
    by (intro exI [of _ h]) (simp add: clear_empty [OF z] t delete_Node_def frame_refl)
next
  case False
  with ok have hr: "holds_ring h l" by simp
  define as where "as = nodes_of h l"
  from holds_ring_repr [OF hr] obtain xs where r: "repr h l as xs" unfolding as_def by blast
  define l0 where "l0 = l\<lparr>size_field := 0\<rparr>"
  from clear_repr [OF r] obtain h0 where
    cl: "clear h l = (h0, l0, Inr ())" and r0: "repr h0 l0 [] []"
    and len0: "length h0 = length h" and f0: "frame h h0 (cells l as)"
    unfolding l0_def by blast
  from r0 have rg0: "ring h0 l0 []" by (simp add: repr_def)
  then obtain s where s: "temp_node l0 = Some s" by (auto dest: ring_sentinel)
  from ring_first [OF rg0 s] obtain n where n: "node_at h0 (Some s) = Some n"
    by (auto simp: get_next_def)
  have del: "delete_Node h0 (temp_node l) = Some (h0[s := None])"
    using n s by (simp add: l0_def delete_Node_Some)
  have f1: "frame h0 (h0[s := None]) {s}" by (simp add: frame_def node_at_update)
  have sc: "s \<in> cells l as" using s by (simp add: cells_def l0_def)
  have fr: "frame h (h0[s := None]) (cells l as)"
    by (rule frame_trans [OF f0 f1]) (use sc in simp)
  from cl del len0 fr show ?thesis
    by (intro exI [of _ h0] exI [of _ "h0[s := None]"])
       (simp add: l0_def footprint_def as_def)
qed

lemma dtor_ok:
  assumes ok: "moved_from l \<or> holds_ring h l"
  shows "\<exists>h1. dtor h l = Inr h1 \<and> length h1 = length h \<and> frame h h1 (footprint h l)"
  using release [OF ok] by (auto simp: dtor_def)

lemma move_assign_ok:
  assumes ok: "moved_from l \<or> holds_ring h l" and ne: "this \<noteq> that"
  shows "\<exists>h1. move_assign h this l that other =
             (h1, \<lparr>temp_node = temp_node other, size_field = size_field other\<rparr>,
              other\<lparr>temp_node := None, size_field := 0\<rparr>, Inr ()) \<and>
           length h1 = length h \<and> frame h h1 (footprint h l)"
  using release [OF ok] ne by (auto simp: move_assign_def)

text \<open>
  Copy assignment to an object that was moved from: the loop stops at once when the source
  is empty, and otherwise its first \<^verbatim>\<open>push_back\<close> goes through the null sentinel.
\<close>

lemma copy_assign_moved_from:
  assumes mf: "moved_from l" and ro: "holds_ring h other" and ne: "this \<noteq> that"
  shows "copy_assign h this l that other =
           Some (h, l, if size_field other = 0 then Inr () else Inl undefined_behaviour)"
proof -
  from mf have t: "temp_node l = None" and z: "size_field l = 0" by (simp_all add: moved_from_def)
  define bs where "bs = nodes_of h other"
  from holds_ring_repr [OF ro] obtain ys where r: "repr h other bs ys" unfolding bs_def by blast
  then have rg: "ring h other bs" by (simp add: repr_def)
  then obtain s where s: "temp_node other = Some s" by (auto dest: ring_sentinel)
  from rg s have sz: "size_field other = length bs" by (simp add: ring_def)
  have b: "begin_cl h other = Some (position other bs 0)" by (rule begin_cl_ring [OF rg s])
  have "push_back_range h l (position other bs 0) (end_cl other) =
          Some (h, l, if size_field other = 0 then Inr () else Inl undefined_behaviour)"
  proof (cases "bs = []")
    case True
    with iter_neq_end [OF rg, of 0] sz show ?thesis
      by (subst push_back_range.simps) simp
  next
    case False
    then have j: "0 < length bs" by simp
    with iter_neq_end [OF rg, of 0] iter_deref_position [OF r j] sz show ?thesis
      by (subst push_back_range.simps) (simp add: push_back_moved_from [OF t])
  qed
  with b ne show ?thesis by (simp add: copy_assign_def clear_empty [OF z])
qed

lemma copy_from_moved_from:
  assumes t: "temp_node other = None"
  shows "\<exists>h0 l0. copy_ctor d h other = Some (h0, l0, Inl undefined_behaviour)"
    and "moved_from l \<or> holds_ring h l \<Longrightarrow> this \<noteq> that \<Longrightarrow>
         \<exists>h0 l0. copy_assign h this l that other = Some (h0, l0, Inl undefined_behaviour)"
proof -
  from default_ctor_repr [of d h]
  show "\<exists>h0 l0. copy_ctor d h other = Some (h0, l0, Inl undefined_behaviour)"
    by (auto simp: copy_ctor_def begin_moved_from [OF t])
  assume "moved_from l \<or> holds_ring h l" "this \<noteq> that"
  with release [of l h]
  show "\<exists>h0 l0. copy_assign h this l that other = Some (h0, l0, Inl undefined_behaviour)"
    by (auto simp: copy_assign_def begin_moved_from [OF t])
qed

section \<open>Calls on several containers\<close>

lemma sound_ok:
  "sound h os \<Longrightarrow> object os k = Some x \<Longrightarrow> moved_from x \<or> holds_ring h x"
  unfolding sound_def by blast

lemma sound_disjoint:
  "sound h os \<Longrightarrow> k \<noteq> j \<Longrightarrow> object os k = Some x \<Longrightarrow> object os j = Some y \<Longrightarrow>
   footprint h x \<inter> footprint h y = {}"
  unfolding sound_def by blast

lemma sentinel_holds_ring:
  "moved_from x \<or> holds_ring h x \<Longrightarrow> temp_node x \<noteq> None \<Longrightarrow> holds_ring h x"
  by (auto simp: moved_from_def)

lemma proceed_simps [simp]:
  "proceed (Inr u) s = Some s"
  "proceed (Inl out_of_range) s = Some s"
  "proceed (Inl undefined_behaviour) s = None"
  "proceed (Inl terminate_called) s = None"
  by (simp_all add: proceed_def)

lemma construct_sound:
  assumes s: "sound h os"
  shows "\<exists>h' l'. step d (h, os) Construct = Some (h', os @ [Some l']) \<and>
           sound h' (os @ [Some l'])"
proof -
  from default_ctor_repr [of d h] obtain h0 l0 where
    dc: "default_ctor d h = Some (h0, l0)" and r0: "repr h0 l0 [] []"
    and t0: "temp_node l0 = Some (length h)" and f0: "frame h h0 {}"
    by blast
  from r0 have rg: "ring h0 l0 []" by (simp add: repr_def)
  have "sound h0 (os @ [Some l0])"
    by (rule sound_construct [OF s f0])
       (use holds_ringI [OF rg] t0 in \<open>auto simp: cells_def\<close>)
  with dc show ?thesis by (intro exI [of _ h0] exI [of _ l0]) simp
qed

lemma construct_init_sound:
  assumes s: "sound h os"
  shows "\<exists>h' l'. step d (h, os) (Construct_init ys) = Some (h', os @ [Some l']) \<and>
           sound h' (os @ [Some l'])"
proof -
  from init_ctor_repr [of d h ys] obtain h0 l0 where
    ic: "init_ctor d h ys = Some (h0, l0, Inr ())"
    and r0: "repr h0 l0 [Suc (length h) ..< Suc (length h) + length ys] ys"
    and t0: "temp_node l0 = Some (length h)" and f0: "frame h h0 {}"
    by blast
  from r0 have rg: "ring h0 l0 [Suc (length h) ..< Suc (length h) + length ys]"
    by (simp add: repr_def)
  have "sound h0 (os @ [Some l0])"
    by (rule sound_construct [OF s f0])
       (use holds_ringI [OF rg] t0 in \<open>auto simp: cells_def\<close>)
  with ic show ?thesis by (intro exI [of _ h0] exI [of _ l0]) simp
qed

lemma construct_copy_sound:
  assumes s: "sound h os" and o: "object os j = Some other" and hr: "holds_ring h other"
  shows "\<exists>h' l'. step d (h, os) (Construct_copy j) = Some (h', os @ [Some l']) \<and>
           sound h' (os @ [Some l'])"
proof -
  from holds_ring_repr [OF hr] obtain ys where ro: "repr h other (nodes_of h other) ys" by blast
  from copy_ctor_repr [OF ro, of d] obtain h0 l0 as0 where
    cc: "copy_ctor d h other = Some (h0, l0, Inr ())" and r0: "repr h0 l0 as0 ys"
    and f0: "frame h h0 {}" and ge: "\<forall>a \<in> cells l0 as0. length h \<le> a"
    by blast
  from r0 have rg: "ring h0 l0 as0" by (simp add: repr_def)
  have "sound h0 (os @ [Some l0])"
    by (rule sound_construct [OF s f0]) (use holds_ringI [OF rg] ge in auto)
  with cc o show ?thesis by (intro exI [of _ h0] exI [of _ l0]) simp
qed

lemma construct_move_sound:
  assumes s: "sound h os" and o: "object os j = Some other"
  shows "step d (h, os) (Construct_move j) =
           Some (h, os[j := Some (other\<lparr>temp_node := None, size_field := 0\<rparr>)] @
                    [Some \<lparr>temp_node = temp_node other, size_field = size_field other\<rparr>])"
    and "sound h (os[j := Some (other\<lparr>temp_node := None, size_field := 0\<rparr>)] @
                    [Some \<lparr>temp_node = temp_node other, size_field = size_field other\<rparr>])"
proof -
  define l :: "'a CircularList" where
    "l = \<lparr>temp_node = temp_node other, size_field = size_field other\<rparr>"
  define other' where "other' = other\<lparr>temp_node := None, size_field := 0\<rparr>"
  show "step d (h, os) (Construct_move j) =
           Some (h, os[j := Some (other\<lparr>temp_node := None, size_field := 0\<rparr>)] @
                    [Some \<lparr>temp_node = temp_node other, size_field = size_field other\<rparr>])"
    using o by (simp add: move_ctor_def)
  have mf: "moved_from other'" by (simp add: moved_from_def other'_def)
  have same: "footprint h l = footprint h other" "holds_ring h l = holds_ring h other"
    "moved_from l = moved_from other"
    by (rule same_fields; simp add: l_def)+
  have s1: "sound h (os[j := Some other'])"
    by (rule sound_update [OF s]) (use mf in simp_all)
  have "sound h (os[j := Some other'] @ [Some l])"
  proof (rule sound_append [OF s1])
    show "moved_from l \<or> holds_ring h l" using sound_ok [OF s o] same by simp
    fix k x assume a: "object (os[j := Some other']) k = Some x"
    show "footprint h x \<inter> footprint h l = {}"
    proof (cases "k = j")
      case True
      with a object_Some_less [OF o] mf show ?thesis by (simp add: object_update)
    next
      case False
      with a have "object os k = Some x" by (simp add: object_update)
      from sound_disjoint [OF s False this o] same show ?thesis by simp
    qed
  qed
  then show "sound h (os[j := Some (other\<lparr>temp_node := None, size_field := 0\<rparr>)] @
                    [Some \<lparr>temp_node = temp_node other, size_field = size_field other\<rparr>])"
    by (simp add: l_def other'_def)
qed

lemma destroy_sound:
  assumes s: "sound h os" and o: "object os i = Some l"
  shows "\<exists>h'. step d (h, os) (Destroy i) = Some (h', os[i := None]) \<and>
           sound h' (os[i := None])"
proof -
  from dtor_ok [OF sound_ok [OF s o]] obtain h1 where
    dt: "dtor h l = Inr h1" and f: "frame h h1 (footprint h l)"
    by blast
  have "sound h1 (os[i := None])"
  proof (rule sound_frame [OF sound_remove [OF s] f])
    fix k x assume "object (os[i := None]) k = Some x"
    then have "k \<noteq> i" "object os k = Some x"
      using object_Some_less [OF o] by (auto simp: object_update split: if_splits)
    then show "footprint h x \<inter> footprint h l = {}" using sound_disjoint [OF s _ _ o] by blast
  qed
  with dt o show ?thesis by (intro exI [of _ h1]) simp
qed

lemma copy_assign_sound:
  assumes s: "sound h os" and o: "object os i = Some l" and oo: "object os j = Some other"
    and hl: "holds_ring h l" and ho: "holds_ring h other" and ne: "i \<noteq> j"
  shows "\<exists>h' l'. step d (h, os) (Copy_assign i j) = Some (h', os[i := Some l']) \<and>
           sound h' (os[i := Some l'])"
proof -
  define as where "as = nodes_of h l"
  define bs where "bs = nodes_of h other"
  from holds_ring_repr [OF hl] obtain xs where r: "repr h l as xs" unfolding as_def by blast
  from holds_ring_repr [OF ho] obtain ys where ro: "repr h other bs ys"
    unfolding bs_def by blast
  from sound_disjoint [OF s ne o oo] have dj: "cells l as \<inter> cells other bs = {}"
    by (simp add: footprint_def as_def bs_def)
  from copy_assign_repr [OF r ro dj ne] obtain h1 l1 as1 where
    ca: "copy_assign h i l j other = Some (h1, l1, Inr ())" and r1: "repr h1 l1 as1 ys"
    and t1: "temp_node l1 = temp_node l" and f: "frame h h1 (cells l as)"
    and ge: "\<forall>a \<in> set as1. length h \<le> a"
    by blast
  from r1 have rg: "ring h1 l1 as1" by (simp add: repr_def)
  have f': "frame h h1 (footprint h l)" using f by (simp add: footprint_def as_def)
  have "sound h1 (os[i := Some l1])"
    by (rule sound_step [OF s o f'])
       (use holds_ringI [OF rg] t1 ge in \<open>auto simp: cells_def footprint_def\<close>)
  with ca o oo show ?thesis by (intro exI [of _ h1] exI [of _ l1]) simp
qed

lemma move_assign_sound:
  assumes s: "sound h os" and o: "object os i = Some l" and oo: "object os j = Some other"
    and ne: "i \<noteq> j"
  shows "\<exists>h'. step d (h, os) (Move_assign i j) =
             Some (h', os[j := Some (other\<lparr>temp_node := None, size_field := 0\<rparr>),
                          i := Some \<lparr>temp_node = temp_node other, size_field = size_field other\<rparr>]) \<and>
           sound h' (os[j := Some (other\<lparr>temp_node := None, size_field := 0\<rparr>),
                        i := Some \<lparr>temp_node = temp_node other, size_field = size_field other\<rparr>])"
proof -
  define l' :: "'a CircularList" where
    "l' = \<lparr>temp_node = temp_node other, size_field = size_field other\<rparr>"
  define other' where "other' = other\<lparr>temp_node := None, size_field := 0\<rparr>"
  from move_assign_ok [OF sound_ok [OF s o] ne, of other] obtain h1 where
    ma: "move_assign h i l j other = (h1, l', other', Inr ())"
    and f: "frame h h1 (footprint h l)"
    unfolding l'_def other'_def by blast
  have il: "i < length os" and jl: "j < length os"
    using object_Some_less [OF o] object_Some_less [OF oo] by simp_all
  have s2: "sound h1 (os[i := None])"
  proof (rule sound_frame [OF sound_remove [OF s] f])
    fix k x assume "object (os[i := None]) k = Some x"
    then have "k \<noteq> i" "object os k = Some x"
      using il by (auto simp: object_update split: if_splits)
    then show "footprint h x \<inter> footprint h l = {}" using sound_disjoint [OF s _ _ o] by blast
  qed
  have oj: "object (os[i := None]) j = Some other" using ne oo by (simp add: object_update)
  have mf: "moved_from other'" by (simp add: moved_from_def other'_def)
  have same: "footprint h1 l' = footprint h1 other" "holds_ring h1 l' = holds_ring h1 other"
    "moved_from l' = moved_from other"
    by (rule same_fields; simp add: l'_def)+
  have s3: "sound h1 (os[i := None, j := Some other'])"
    by (rule sound_update [OF s2]) (use mf in simp_all)
  have s4: "sound h1 (os[i := None, j := Some other', i := Some l'])"
  proof (rule sound_update [OF s3])
    show "moved_from l' \<or> holds_ring h1 l'" using sound_ok [OF s2 oj] same by simp
    fix k x assume k: "k \<noteq> i" and a: "object (os[i := None, j := Some other']) k = Some x"
    show "footprint h1 x \<inter> footprint h1 l' = {}"
    proof (cases "k = j")
      case True
      with a jl mf show ?thesis by (simp add: object_update)
    next
      case False
      with a have "object (os[i := None]) k = Some x" by (simp add: object_update)
      from sound_disjoint [OF s2 False this oj] same show ?thesis by simp
    qed
  qed
  have "os[i := None, j := Some other', i := Some l'] = os[j := Some other', i := Some l']"
    using ne by (simp add: list_update_swap [of i j])
  with s4 have "sound h1 (os[j := Some other', i := Some l'])" by simp
  with ma o oo show ?thesis
    unfolding l'_def other'_def by (intro exI [of _ h1]) simp
qed

lemma member_sound:
  assumes s: "sound h os" and o: "object os i = Some l" and hl: "holds_ring h l"
  shows "\<exists>h' l'. step d (h, os) (Member i x) = Some (h', os[i := Some l']) \<and>
           sound h' (os[i := Some l'])"
proof -
  define as where "as = nodes_of h l"
  from holds_ring_repr [OF hl] obtain xs where r: "repr h l as xs" unfolding as_def by blast
  from apply_op_repr [OF r, of x] obtain h1 l1 as1 where
    ap: "apply_op h l x = (h1, l1, if abs_raises x xs then Inl out_of_range else Inr ())"
    and r1: "repr h1 l1 as1 (abs_op x xs)" and t1: "temp_node l1 = temp_node l"
    and f: "frame h h1 (cells l as)" and ge: "\<forall>a \<in> set as1. a \<in> set as \<or> length h \<le> a"
    by blast
  from r1 have rg: "ring h1 l1 as1" by (simp add: repr_def)
  have f': "frame h h1 (footprint h l)" using f by (simp add: footprint_def as_def)
  have "sound h1 (os[i := Some l1])"
    by (rule sound_step [OF s o f'])
       (use holds_ringI [OF rg] t1 ge in \<open>auto simp: cells_def footprint_def as_def\<close>)
  with ap o show ?thesis by (intro exI [of _ h1] exI [of _ l1]) simp
qed

lemma step_sound:
  assumes s: "sound h os" and st: "step d (h, os) c = Some (h', os')"
  shows "sound h' os'"
proof (cases c)
  case Construct
  with construct_sound [OF s, of d] st show ?thesis by auto
next
  case (Construct_init ys)
  with construct_init_sound [OF s, of d ys] st show ?thesis by auto
next
  case (Construct_copy j)
  with st obtain other where o: "object os j = Some other" by (auto split: option.splits)
  show ?thesis
  proof (cases "temp_node other")
    case None
    from copy_from_moved_from(1) [OF None, of d h] o st Construct_copy show ?thesis by auto
  next
    case (Some a)
    with sound_ok [OF s o] have "holds_ring h other" by (auto simp: moved_from_def)
    from construct_copy_sound [OF s o this, of d] st Construct_copy show ?thesis by auto
  qed
next
  case (Construct_move j)
  with st obtain other where o: "object os j = Some other" by (auto split: option.splits)
  from construct_move_sound(1) [OF s o, of d] construct_move_sound(2) [OF s o] st Construct_move
  show ?thesis by auto
next
  case (Destroy i)
  with st obtain l where o: "object os i = Some l" by (auto split: option.splits)
  from destroy_sound [OF s o, of d] st Destroy show ?thesis by auto
next
  case (Copy_assign i j)
  with st obtain l other where o: "object os i = Some l" and oo: "object os j = Some other"
    by (auto split: option.splits)
  show ?thesis
  proof (cases "i = j")
    case True
    with st Copy_assign o oo s show ?thesis by (simp add: self_assign object_update_id)
  next
    case ne: False
    show ?thesis
    proof (cases "temp_node other")
      case None
      from copy_from_moved_from(2) [OF None sound_ok [OF s o] ne] o oo st Copy_assign
      show ?thesis by auto
    next
      case (Some a)
      with sound_ok [OF s oo] have ho: "holds_ring h other" by (auto simp: moved_from_def)
      show ?thesis
      proof (cases "moved_from l")
        case True
        from copy_assign_moved_from [OF True ho ne] o oo st Copy_assign s show ?thesis
          by (auto simp: object_update_id split: if_splits)
      next
        case False
        with sound_ok [OF s o] have hl: "holds_ring h l" by simp
        from copy_assign_sound [OF s o oo hl ho ne, of d] st Copy_assign show ?thesis by auto
      qed
    qed
  qed
next
  case (Move_assign i j)
  with st obtain l other where o: "object os i = Some l" and oo: "object os j = Some other"
    by (auto split: option.splits)
  show ?thesis
  proof (cases "i = j")
    case True
    with st Move_assign o oo s show ?thesis by (simp add: self_assign object_update_id)
  next
    case False
    from move_assign_sound [OF s o oo False, of d] st Move_assign show ?thesis by auto
  qed
next
  case (Member i x)
  with st obtain l where o: "object os i = Some l" by (auto split: option.splits)
  show ?thesis
  proof (cases "moved_from l")
    case True
    from apply_op_moved_from [OF True, of h x] o st Member s show ?thesis
      by (auto simp: object_update_id split: if_splits)
  next
    case False
    with sound_ok [OF s o] have hl: "holds_ring h l" by simp
    from member_sound [OF s o hl, of d x] st Member show ?thesis by auto
  qed
qed

lemma usable_holds_ring:
  assumes "sound h os" "usable os i"
  shows "\<exists>l. object os i = Some l \<and> holds_ring h l"
  using assms sound_ok [OF assms(1), of i]
  by (auto simp: usable_def moved_from_def split: option.splits)

lemma step_defined:
  assumes s: "sound h os" and sc: "in_scope os c"
  shows "\<exists>h' os'. step d (h, os) c = Some (h', os')"
proof (cases c)
  case Construct
  with construct_sound [OF s, of d] show ?thesis by auto
next
  case (Construct_init ys)
  with construct_init_sound [OF s, of d ys] show ?thesis by auto
next
  case (Construct_copy j)
  with sc usable_holds_ring [OF s, of j] obtain other where
    "object os j = Some other" "holds_ring h other" by auto
  from construct_copy_sound [OF s this, of d] Construct_copy show ?thesis by auto
next
  case (Construct_move j)
  with sc usable_holds_ring [OF s, of j] obtain other where "object os j = Some other" by auto
  from construct_move_sound(1) [OF s this, of d] Construct_move show ?thesis by auto
next
  case (Destroy i)
  with sc obtain l where "object os i = Some l" by (auto simp: live_def)
  from destroy_sound [OF s this, of d] Destroy show ?thesis by auto
next
  case (Copy_assign i j)
  with sc usable_holds_ring [OF s, of i] usable_holds_ring [OF s, of j] obtain l other where
    o: "object os i = Some l" "object os j = Some other" "holds_ring h l" "holds_ring h other"
    by auto
  show ?thesis
  proof (cases "i = j")
    case True
    with o Copy_assign show ?thesis by (simp add: self_assign)
  next
    case False
    from copy_assign_sound [OF s o False, of d] Copy_assign show ?thesis by auto
  qed
next
  case (Move_assign i j)
  with sc usable_holds_ring [OF s, of j] obtain l other where
    o: "object os i = Some l" "object os j = Some other"
    by (auto simp: live_def)
  show ?thesis
  proof (cases "i = j")
    case True
    with o Move_assign show ?thesis by (simp add: self_assign)
  next
    case False
    from move_assign_sound [OF s o False, of d] Move_assign show ?thesis by auto
  qed
next
  case (Member i x)
  with sc usable_holds_ring [OF s, of i] obtain l where
    "object os i = Some l" "holds_ring h l" by auto
  from member_sound [OF s this, of d x] Member show ?thesis by auto
qed

lemma exec_sound:
  "sound h os \<Longrightarrow> exec d (h, os) cs = Some (h', os') \<Longrightarrow> sound h' os'"
proof (induction cs arbitrary: h os)
  case Nil
  then show ?case by simp
next
  case (Cons c cs)
  from Cons.prems(2) obtain h1 os1 where
    st: "step d (h, os) c = Some (h1, os1)" and ex: "exec d (h1, os1) cs = Some (h', os')"
    by (auto split: option.splits)
  from Cons.IH [OF step_sound [OF Cons.prems(1) st] ex] show ?case .
qed

lemma exec_append:
  "exec d s (cs @ [c]) = (case exec d s cs of None \<Rightarrow> None | Some s' \<Rightarrow> step d s' c)"
  by (induction cs arbitrary: s) (auto split: option.splits)

section \<open>Facts about the example states\<close>

lemma default_ctor_example: "default_ctor 0 [] = Some (heap_empty, list_empty)"
  by code_simp

lemma init_ctor_example: "init_ctor 0 [] [10, 20, 30] = Some (heap123, list123, Inr ())"
  by code_simp

lemma repr_empty_example: "repr heap_empty list_empty [] []"
  by code_simp

lemma repr_example: "repr heap123 list123 [1, 2, 3] [10, 20, 30]"
  by code_simp

lemma two_lists_example:
  "copy_ctor 0 heap123 list123 = Some (heap_two, list_copy, Inr ())"
  "repr heap_two list123 [1, 2, 3] [10, 20, 30]"
  "repr heap_two list_copy [5, 6, 7] [10, 20, 30]"
  by code_simp+

section \<open>The claims\<close>

text \<open>
  C1. \<^verbatim>\<open>erase(pos)\<close> raises the out-of-range error exactly when the list is empty or
  \<^verbatim>\<open>pos\<close> is at the sentinel, and then the heap and the object are as before. At the
  position \<open>j\<close> of an element of a represented list it releases that node and no other,
  the list represents the old elements without the \<open>j\<close>-th, \<^verbatim>\<open>size_\<close> is one less, and
  the iterator returned is at the node that followed, which is position \<open>j\<close> of the new
  list and \<^verbatim>\<open>end()\<close> when the last element was erased.
\<close>

theorem erase_contract:
  "(snd (snd (erase h l pos)) = Inl out_of_range \<longleftrightarrow> empty_cl l \<or> current pos = temp_node l) \<and>
   (empty_cl l \<or> current pos = temp_node l \<longrightarrow> erase h l pos = (h, l, Inl out_of_range)) \<and>
   (repr h l as xs \<and> j < length as \<and> current pos = node_pos l as j \<longrightarrow>
      (\<exists>h' l' nxt. erase h l pos = (h', l', Inr nxt) \<and>
         repr h' l' (remove_at j as) (remove_at j xs) \<and>
         node_at h' (Some (as ! j)) = None \<and>
         (\<forall>a. a \<noteq> as ! j \<longrightarrow> get_value h' (Some a) = get_value h (Some a)) \<and>
         size_cl l' = size_cl l - 1 \<and> size_cl l \<noteq> 0 \<and>
         nxt = iterator_ctor (node_pos l as (Suc j)) (temp_node l) \<and>
         nxt = position l' (remove_at j as) j \<and>
         (Suc j = length as \<longrightarrow> nxt = end_cl l')))"
proof (intro conjI impI)
  show "snd (snd (erase h l pos)) = Inl out_of_range \<longleftrightarrow> empty_cl l \<or> current pos = temp_node l"
    by (auto simp: erase_def or_undefined_def Let_def split: option.splits)
  show "erase h l pos = (h, l, Inl out_of_range)" if "empty_cl l \<or> current pos = temp_node l"
    using that by (auto simp: erase_def Let_def)
next
  assume a: "repr h l as xs \<and> j < length as \<and> current pos = node_pos l as j"
  then have r: "repr h l as xs" and j: "j < length as" and pos: "current pos = node_pos l as j"
    by simp_all
  define l' where "l' = l\<lparr>size_field := size_field l - 1\<rparr>"
  define nxt where "nxt = iterator_ctor (node_pos l as (Suc j)) (temp_node l)"
  from repr_erase [OF r j pos] obtain h' where
    er: "erase h l pos = (h', l', Inr nxt)"
    and r': "repr h' l' (remove_at j as) (remove_at j xs)"
    and nx: "\<And>a. next_of h' a = (if a = as ! j then None
              else if Some a = pred_pos l as j then Some (node_pos l as (Suc j))
              else next_of h a)"
    and vl: "\<And>a. get_value h' (Some a) = (if a = as ! j then None else get_value h (Some a))"
    unfolding l'_def nxt_def by blast
  have gone: "node_at h' (Some (as ! j)) = None" by (rule node_at_released) (simp add: nx)
  have sz: "size_cl l' = size_cl l - 1" "size_cl l \<noteq> 0"
    using repr_size [OF r] repr_length [OF r] j by (auto simp: size_cl_def l'_def)
  have len: "length (remove_at j as) = length as - 1" using j by (simp add: remove_at_def)
  have nth: "remove_at j as ! j = as ! Suc j" if "Suc j < length as"
    using that by (simp add: remove_at_def nth_append)
  have p: "nxt = position l' (remove_at j as) j"
    using j by (auto simp: nxt_def position_def node_pos_def l'_def len nth)
  have e: "nxt = end_cl l'" if "Suc j = length as"
    using that by (simp add: nxt_def end_cl_def node_pos_def l'_def)
  from er r' gone vl sz p e show "\<exists>h' l' nxt. erase h l pos = (h', l', Inr nxt) \<and>
         repr h' l' (remove_at j as) (remove_at j xs) \<and>
         node_at h' (Some (as ! j)) = None \<and>
         (\<forall>a. a \<noteq> as ! j \<longrightarrow> get_value h' (Some a) = get_value h (Some a)) \<and>
         size_cl l' = size_cl l - 1 \<and> size_cl l \<noteq> 0 \<and>
         nxt = iterator_ctor (node_pos l as (Suc j)) (temp_node l) \<and>
         nxt = position l' (remove_at j as) j \<and>
         (Suc j = length as \<longrightarrow> nxt = end_cl l')"
    unfolding nxt_def [symmetric] by (intro exI [of _ h'] exI [of _ l'] exI [of _ nxt]) simp
qed

theorem erase_contract_witness:
  "repr heap123 list123 [1, 2, 3] [10, 20, 30] \<and> (1::nat) < length [1, 2, 3 :: nat] \<and>
   current (position list123 [1, 2, 3] 1) = node_pos list123 [1, 2, 3] 1 \<and>
   (\<exists>h' l' nxt. erase heap123 list123 (position list123 [1, 2, 3] 1) = (h', l', Inr nxt) \<and>
      repr h' l' [1, 3] [10, 30] \<and> node_at h' (Some 2) = None \<and> size_cl l' = 2 \<and>
      nxt = position l' [1, 3] 1) \<and>
   erase heap123 list123 (end_cl list123) = (heap123, list123, Inl out_of_range) \<and>
   erase heap_empty list_empty (end_cl list_empty) = (heap_empty, list_empty, Inl out_of_range)"
proof -
  have c: "current (position list123 [1, 2, 3] 1) = node_pos list123 [1, 2, 3] 1"
    by (simp add: position_def iterator_ctor_def)
  have e: "current (end_cl list123) = temp_node list123" "empty_cl list_empty"
    by (simp_all add: end_cl_def iterator_ctor_def empty_cl_def list_empty_def)
  have sz: "size_cl list123 = 3" by (simp add: size_cl_def list123_def)
  from erase_contract [of heap123 list123 "position list123 [1, 2, 3] 1" "[1, 2, 3]" "[10, 20, 30]" 1]
    erase_contract [of heap123 list123 "end_cl list123" "[]" "[]" 0]
    erase_contract [of heap_empty list_empty "end_cl list_empty" "[]" "[]" 0]
    repr_example c e sz
  show ?thesis by (auto simp: remove_at_def)
qed



text \<open>
  C3. On an empty list \<^verbatim>\<open>begin()\<close> and the predecessor of \<^verbatim>\<open>end()\<close> are both the sentinel,
  that is \<^verbatim>\<open>end()\<close> itself, and \<^verbatim>\<open>erase\<close>, \<^verbatim>\<open>pop_front()\<close> and \<^verbatim>\<open>pop_back()\<close> raise the
  out-of-range error and leave the heap and the object as they were.
\<close>

theorem pop_on_empty:
  "ring h l [] \<longrightarrow>
     begin_cl h l = Some (end_cl l) \<and>
     iter_dec h (end_cl l) = Inr (end_cl l) \<and>
     erase h l (end_cl l) = (h, l, Inl out_of_range) \<and>
     pop_front h l = (h, l, Inl out_of_range) \<and>
     pop_back h l = (h, l, Inl out_of_range)"
proof
  assume r: "ring h l []"
  then obtain s where s: "temp_node l = Some s" by (auto dest: ring_sentinel)
  from r s have e: "empty_cl l" by (simp add: ring_def empty_cl_def)
  have b: "begin_cl h l = Some (end_cl l)"
    using begin_cl_ring [OF r s] end_cl_position [of l "[]"] by simp
  have d: "iter_dec h (end_cl l) = Inr (end_cl l)" by (rule iter_dec_end_empty [OF r])
  have er: "erase h l (end_cl l) = (h, l, Inl out_of_range)" using e by (simp add: erase_def)
  show "begin_cl h l = Some (end_cl l) \<and>
     iter_dec h (end_cl l) = Inr (end_cl l) \<and>
     erase h l (end_cl l) = (h, l, Inl out_of_range) \<and>
     pop_front h l = (h, l, Inl out_of_range) \<and>
     pop_back h l = (h, l, Inl out_of_range)"
    using b d er by (simp add: pop_front_def pop_back_def discard_def)
qed

theorem pop_on_empty_witness:
  "default_ctor 0 [] = Some (heap_empty, list_empty) \<and> ring heap_empty list_empty [] \<and>
   pop_front heap_empty list_empty = (heap_empty, list_empty, Inl out_of_range) \<and>
   pop_back heap_empty list_empty = (heap_empty, list_empty, Inl out_of_range)"
proof -
  have r: "ring heap_empty list_empty []" using repr_empty_example by (simp add: repr_def)
  with pop_on_empty [of heap_empty list_empty] default_ctor_example show ?thesis by simp
qed

text \<open>
  C4. \<^verbatim>\<open>front()\<close> and \<^verbatim>\<open>back()\<close> raise the out-of-range error exactly when \<^verbatim>\<open>size_\<close> is 0.
  On a list that is not empty \<^verbatim>\<open>front()\<close> returns the value of the node after the sentinel,
  which is the first element, and \<^verbatim>\<open>back()\<close> the value of the node before the sentinel,
  which is the last element.
\<close>

theorem front_back_contract:
  "(front_cl h l = Inl out_of_range \<longleftrightarrow> size_cl l = 0) \<and>
   (back_cl h l = Inl out_of_range \<longleftrightarrow> size_cl l = 0) \<and>
   (repr h l as xs \<and> size_cl l \<noteq> 0 \<longrightarrow>
      (\<exists>q. get_next h (temp_node l) = Some q \<and> get_value h q = Some (hd xs) \<and>
           front_cl h l = Inr (hd xs)) \<and>
      (\<exists>q. get_prev h (temp_node l) = Some q \<and> get_value h q = Some (last xs) \<and>
           back_cl h l = Inr (last xs)))"
proof (intro conjI impI)
  show "front_cl h l = Inl out_of_range \<longleftrightarrow> size_cl l = 0"
    by (simp add: front_cl_def empty_cl_def size_cl_def split: option.splits)
  show "back_cl h l = Inl out_of_range \<longleftrightarrow> size_cl l = 0"
    by (simp add: back_cl_def empty_cl_def size_cl_def split: option.splits)
next
  assume a: "repr h l as xs \<and> size_cl l \<noteq> 0"
  then have r: "repr h l as xs" "ring h l as" and ne: "\<not> empty_cl l"
    by (simp_all add: repr_def size_cl_def empty_cl_def)
  from r obtain s where s: "temp_node l = Some s" by (auto dest: ring_sentinel)
  from a repr_size [OF r(1)] repr_length [OF r(1)] have nonempty: "as \<noteq> []" "xs \<noteq> []"
    by (auto simp: size_cl_def)
  have f: "get_next h (temp_node l) = Some (Some (hd as))"
    using ring_first [OF r(2) s] nonempty s by simp
  have fv: "get_value h (Some (hd as)) = Some (hd xs)"
    using repr_value [OF r(1), of 0] nonempty by (simp add: hd_conv_nth)
  from f fv ne show "\<exists>q. get_next h (temp_node l) = Some q \<and> get_value h q = Some (hd xs) \<and>
           front_cl h l = Inr (hd xs)"
    by (simp add: front_cl_def)
  have b: "get_prev h (temp_node l) = Some (Some (last as))"
    using ring_last [OF r(2) s] nonempty s by simp
  have bv: "get_value h (Some (last as)) = Some (last xs)"
    using repr_value [OF r(1), of "length as - 1"] nonempty repr_length [OF r(1)]
    by (simp add: last_conv_nth)
  from b bv ne show "\<exists>q. get_prev h (temp_node l) = Some q \<and> get_value h q = Some (last xs) \<and>
           back_cl h l = Inr (last xs)"
    by (simp add: back_cl_def)
qed

theorem front_back_contract_witness:
  "repr heap123 list123 [1, 2, 3] [10, 20, 30] \<and> size_cl list123 \<noteq> 0 \<and>
   front_cl heap123 list123 = Inr 10 \<and> back_cl heap123 list123 = Inr 30 \<and>
   size_cl list_empty = 0 \<and> front_cl heap_empty list_empty = Inl out_of_range \<and>
   back_cl heap_empty list_empty = Inl out_of_range"
proof -
  have sz: "size_cl list123 \<noteq> 0" "size_cl list_empty = 0"
    by (simp_all add: size_cl_def list123_def list_empty_def)
  from front_back_contract [of heap123 list123 "[1, 2, 3]" "[10, 20, 30]"]
    front_back_contract [of heap_empty list_empty "[]" "[]"] repr_example sz
  show ?thesis by auto
qed

text \<open>
  C5. The initializer-list constructor succeeds on any heap and for any elements, and so
  does appending any elements with \<^verbatim>\<open>push_back\<close> to a represented list. The loop from
  \<^verbatim>\<open>begin()\<close> to \<^verbatim>\<open>end()\<close> then returns, and yields the elements in the order of insertion
  (after those the list held before); the loop from \<^verbatim>\<open>rbegin()\<close> to \<^verbatim>\<open>rend()\<close> returns and
  yields the reversed sequence.
\<close>

theorem iteration_order:
  "(\<exists>h' l'. init_ctor d h xs = Some (h', l', Inr ()) \<and>
      forward_iteration h' l' = Some (Inr xs) \<and>
      reverse_iteration h' l' = Some (Inr (rev xs))) \<and>
   (repr h l as ys \<longrightarrow>
      (\<exists>h' l'. push_back_all h l xs = (h', l', Inr ()) \<and>
         forward_iteration h' l' = Some (Inr (ys @ xs)) \<and>
         reverse_iteration h' l' = Some (Inr (rev (ys @ xs)))))"
proof (intro conjI impI)
  from init_ctor_repr [of d h xs] obtain h' l' as' where
    "init_ctor d h xs = Some (h', l', Inr ())" "repr h' l' as' xs"
    by blast
  with forward_iteration_repr [of h' l' as' xs] reverse_iteration_repr [of h' l' as' xs]
  show "\<exists>h' l'. init_ctor d h xs = Some (h', l', Inr ()) \<and>
      forward_iteration h' l' = Some (Inr xs) \<and>
      reverse_iteration h' l' = Some (Inr (rev xs))"
    by blast
next
  assume "repr h l as ys"
  from push_back_all_repr [OF this, of xs] obtain h' l' as' where
    "push_back_all h l xs = (h', l', Inr ())" "repr h' l' as' (ys @ xs)"
    by blast
  with forward_iteration_repr [of h' l' as' "ys @ xs"] reverse_iteration_repr [of h' l' as' "ys @ xs"]
  show "\<exists>h' l'. push_back_all h l xs = (h', l', Inr ()) \<and>
         forward_iteration h' l' = Some (Inr (ys @ xs)) \<and>
         reverse_iteration h' l' = Some (Inr (rev (ys @ xs)))"
    by blast
qed

theorem iteration_order_witness:
  "init_ctor 0 [] [10, 20, 30] = Some (heap123, list123, Inr ()) \<and>
   forward_iteration heap123 list123 = Some (Inr [10, 20, 30]) \<and>
   reverse_iteration heap123 list123 = Some (Inr [30, 20, 10]) \<and>
   repr heap123 list123 [1, 2, 3] [10, 20, 30] \<and>
   (\<exists>h' l'. push_back_all heap123 list123 [40, 50] = (h', l', Inr ()) \<and>
      forward_iteration h' l' = Some (Inr [10, 20, 30, 40, 50]) \<and>
      reverse_iteration h' l' = Some (Inr [50, 40, 30, 20, 10]))"
proof -
  have "\<exists>h' l'. init_ctor 0 [] [10, 20, 30 :: nat] = Some (h', l', Inr ()) \<and>
      forward_iteration h' l' = Some (Inr [10, 20, 30]) \<and>
      reverse_iteration h' l' = Some (Inr (rev [10, 20, 30]))"
    using iteration_order [where d = 0 and h = "[]" and xs = "[10, 20, 30 :: nat]"
        and l = list123 and as = "[]" and ys = "[]"]
    by blast
  then have a: "forward_iteration heap123 list123 = Some (Inr [10, 20, 30])"
    "reverse_iteration heap123 list123 = Some (Inr [30, 20, 10])"
    using init_ctor_example by auto
  have "\<exists>h' l'. push_back_all heap123 list123 [40, 50] = (h', l', Inr ()) \<and>
      forward_iteration h' l' = Some (Inr ([10, 20, 30] @ [40, 50])) \<and>
      reverse_iteration h' l' = Some (Inr (rev ([10, 20, 30] @ [40, 50])))"
    using iteration_order [where d = 0 and h = heap123 and l = list123 and as = "[1, 2, 3]"
        and ys = "[10, 20, 30]" and xs = "[40, 50]"] repr_example
    by blast
  then have b: "\<exists>h' l'. push_back_all heap123 list123 [40, 50] = (h', l', Inr ()) \<and>
      forward_iteration h' l' = Some (Inr [10, 20, 30, 40, 50]) \<and>
      reverse_iteration h' l' = Some (Inr [50, 40, 30, 20, 10])"
    by (simp del: push_back_all.simps)
  from a b init_ctor_example repr_example show ?thesis by blast
qed

text \<open>
  C6 does not hold after every sequence of public operations. \<^verbatim>\<open>emplace\<close>, \<^verbatim>\<open>insert\<close> and
  \<^verbatim>\<open>erase\<close> take the position as an iterator, and nothing in the container checks that
  the iterator belongs to the container that the call is made on. With two empty
  containers \<^verbatim>\<open>a\<close> and \<^verbatim>\<open>c\<close> in one heap, \<^verbatim>\<open>a.emplace(c.end(), 7)\<close> returns an iterator and
  raises nothing. Afterwards \<^verbatim>\<open>a.size()\<close> is 1 and \<^verbatim>\<open>a.empty()\<close> is false although
  \<^verbatim>\<open>a.begin()\<close> equals \<^verbatim>\<open>a.end()\<close>, and \<^verbatim>\<open>c.size()\<close> is 0 and \<^verbatim>\<open>c.empty()\<close> is true although
  \<^verbatim>\<open>c.begin()\<close> differs from \<^verbatim>\<open>c.end()\<close>.
\<close>

theorem foreign_position_breaks_equivalence:
  "default_ctor 0 [] = Some (heap_empty, list_empty) \<and>
   default_ctor 0 heap_empty = Some (heap_pair, list_other) \<and>
   emplace heap_pair list_empty (end_cl list_other) 7 =
     (heap_crossed, list_crossed, Inr (iterator_ctor (Some 2) (Some 0))) \<and>
   size_cl list_crossed = 1 \<and> \<not> empty_cl list_crossed \<and>
   begin_cl heap_crossed list_crossed = Some (end_cl list_crossed) \<and>
   iter_eq (end_cl list_crossed) (end_cl list_crossed) \<and>
   size_cl list_other = 0 \<and> empty_cl list_other \<and>
   begin_cl heap_crossed list_other = Some (iterator_ctor (Some 2) (Some 1)) \<and>
   \<not> iter_eq (iterator_ctor (Some 2) (Some 1)) (end_cl list_other)"
  by code_simp

text \<open>
  C6, for calls whose positions belong to the container they are made on. \<^verbatim>\<open>empty()\<close>
  holds exactly when \<^verbatim>\<open>size()\<close> is 0, and in a ring that is exactly when \<^verbatim>\<open>begin()\<close> equals
  \<^verbatim>\<open>end()\<close>. Every sequence of calls on a container that is a ring, and so on one that the
  initializer-list constructor has built, ends in a state where \<^verbatim>\<open>begin()\<close> is defined and
  the three conditions hold together or fail together. The same is true in a program
  with any number of containers: after every sequence of constructor, destructor,
  assignment and member calls that starts in a sound state, for instance with no
  container at all, it holds for each object that has a sentinel, that is, each object
  that is alive and was not moved from. Such a program can go on with every call that
  is in scope.
\<close>

theorem empty_size_begin_end:
  "(empty_cl l \<longleftrightarrow> size_cl l = 0) \<and>
   (ring h l as \<longrightarrow>
      (\<exists>b. begin_cl h l = Some b \<and> (size_cl l = 0 \<longleftrightarrow> iter_eq b (end_cl l)))) \<and>
   (ring h l as \<and> run h l ops = (h', l') \<longrightarrow>
      (\<exists>b. begin_cl h' l' = Some b \<and> (empty_cl l' \<longleftrightarrow> size_cl l' = 0) \<and>
           (size_cl l' = 0 \<longleftrightarrow> iter_eq b (end_cl l')))) \<and>
   (init_ctor d h0 ys = Some (h, l, r) \<and> run h l ops = (h', l') \<longrightarrow>
      (\<exists>b. begin_cl h' l' = Some b \<and> (empty_cl l' \<longleftrightarrow> size_cl l' = 0) \<and>
           (size_cl l' = 0 \<longleftrightarrow> iter_eq b (end_cl l')))) \<and>
   sound hp [] \<and>
   (sound hp os \<and> exec d (hp, os) calls = Some (hp', os') \<and>
    object os' i = Some c \<and> temp_node c \<noteq> None \<longrightarrow>
      (\<exists>b. begin_cl hp' c = Some b \<and> (empty_cl c \<longleftrightarrow> size_cl c = 0) \<and>
           (size_cl c = 0 \<longleftrightarrow> iter_eq b (end_cl c)))) \<and>
   (sound hp os \<and> exec d (hp, os) calls = Some (hp', os') \<and> in_scope os' call \<longrightarrow>
      (\<exists>s. exec d (hp, os) (calls @ [call]) = Some s))"
proof (intro conjI impI)
  show e: "empty_cl l \<longleftrightarrow> size_cl l = 0" for l :: "'a CircularList"
    by (simp add: empty_cl_def size_cl_def)
  show "\<exists>b. begin_cl h l = Some b \<and> (size_cl l = 0 \<longleftrightarrow> iter_eq b (end_cl l))"
    if "ring h l as"
    using begin_eq_end [OF that] by simp
  have in_ring: "\<exists>b. begin_cl h l = Some b \<and> (empty_cl l \<longleftrightarrow> size_cl l = 0) \<and>
           (size_cl l = 0 \<longleftrightarrow> iter_eq b (end_cl l))"
    if "ring h l as" for h l as
    using begin_eq_end [OF that] e [of l] by simp
  have after: "\<exists>b. begin_cl h' l' = Some b \<and> (empty_cl l' \<longleftrightarrow> size_cl l' = 0) \<and>
           (size_cl l' = 0 \<longleftrightarrow> iter_eq b (end_cl l'))"
    if rg: "ring h l as" and rn: "run h l ops = (h', l')" for h l as
  proof -
    from ring_repr [OF rg] obtain xs where "repr h l as xs" by blast
    from run_repr [OF this, of ops] rn obtain as' xs' where "repr h' l' as' xs'" by auto
    then have "ring h' l' as'" by (simp add: repr_def)
    then show ?thesis by (rule in_ring)
  qed
  show "\<exists>b. begin_cl h' l' = Some b \<and> (empty_cl l' \<longleftrightarrow> size_cl l' = 0) \<and>
           (size_cl l' = 0 \<longleftrightarrow> iter_eq b (end_cl l'))"
    if "ring h l as \<and> run h l ops = (h', l')"
    using that after by blast
  show "\<exists>b. begin_cl h' l' = Some b \<and> (empty_cl l' \<longleftrightarrow> size_cl l' = 0) \<and>
           (size_cl l' = 0 \<longleftrightarrow> iter_eq b (end_cl l'))"
    if a: "init_ctor d h0 ys = Some (h, l, r) \<and> run h l ops = (h', l')"
  proof -
    from init_ctor_repr [of d h0 ys] a obtain as where "repr h l as ys" by auto
    then have "ring h l as" by (simp add: repr_def)
    with after a show ?thesis by blast
  qed
  show "sound hp []" by (rule sound_empty)
  show "\<exists>b. begin_cl hp' c = Some b \<and> (empty_cl c \<longleftrightarrow> size_cl c = 0) \<and>
           (size_cl c = 0 \<longleftrightarrow> iter_eq b (end_cl c))"
    if a: "sound hp os \<and> exec d (hp, os) calls = Some (hp', os') \<and>
           object os' i = Some c \<and> temp_node c \<noteq> None"
  proof -
    from a have s: "sound hp os" and ex: "exec d (hp, os) calls = Some (hp', os')"
      and o: "object os' i = Some c" and t: "temp_node c \<noteq> None"
      by simp_all
    from sound_ok [OF exec_sound [OF s ex] o] t have "holds_ring hp' c"
      by (rule sentinel_holds_ring)
    then have "ring hp' c (nodes_of hp' c)" by (simp add: holds_ring_def)
    then show ?thesis by (rule in_ring)
  qed
  show "\<exists>s. exec d (hp, os) (calls @ [call]) = Some s"
    if a: "sound hp os \<and> exec d (hp, os) calls = Some (hp', os') \<and> in_scope os' call"
  proof -
    from a have s: "sound hp os" and ex: "exec d (hp, os) calls = Some (hp', os')"
      and sc: "in_scope os' call"
      by simp_all
    from step_defined [OF exec_sound [OF s ex] sc, of d] ex show ?thesis
      by (simp add: exec_append)
  qed
qed

theorem empty_size_begin_end_witness:
  "ring heap123 list123 [1, 2, 3] \<and> \<not> empty_cl list123 \<and> size_cl list123 \<noteq> 0 \<and>
   (\<exists>b. begin_cl heap123 list123 = Some b \<and> \<not> iter_eq b (end_cl list123)) \<and>
   ring heap_empty list_empty [] \<and> empty_cl list_empty \<and> size_cl list_empty = 0 \<and>
   (\<exists>b. begin_cl heap_empty list_empty = Some b \<and> iter_eq b (end_cl list_empty)) \<and>
   (\<exists>h' l' b. run heap123 list123 [Pop_back, Erase 5, Push_front 7, Clear] = (h', l') \<and>
      begin_cl h' l' = Some b \<and> (empty_cl l' \<longleftrightarrow> size_cl l' = 0) \<and>
      (size_cl l' = 0 \<longleftrightarrow> iter_eq b (end_cl l'))) \<and>
   sound ([] :: nat heap) [] \<and>
   (\<exists>hp. exec (0 :: nat) ([], [])
            [Construct, Construct_init [10, 20], Member 0 (Push_front 3), Member 0 Pop_back,
             Move_assign 0 1, Copy_assign 0 0, Member 0 (Erase 0)] =
          Some (hp, [Some \<lparr>temp_node = Some 1, size_field = 1\<rparr>,
                     Some \<lparr>temp_node = None, size_field = 0\<rparr>]) \<and>
      \<not> empty_cl \<lparr>temp_node = Some 1, size_field = 1\<rparr> \<and>
      size_cl \<lparr>temp_node = Some 1, size_field = 1\<rparr> \<noteq> 0 \<and>
      (\<exists>b. begin_cl hp \<lparr>temp_node = Some 1, size_field = 1\<rparr> = Some b \<and>
         \<not> iter_eq b (end_cl \<lparr>temp_node = Some 1, size_field = 1\<rparr>))) \<and>
   in_scope [Some \<lparr>temp_node = Some 1, size_field = 1\<rparr>,
             Some \<lparr>temp_node = None, size_field = 0\<rparr> :: nat CircularList option]
     (Move_assign 1 0) \<and>
   (\<exists>s. exec (0 :: nat) ([], [])
           ([Construct, Construct_init [10, 20], Member 0 (Push_front 3), Member 0 Pop_back,
             Move_assign 0 1, Copy_assign 0 0, Member 0 (Erase 0)] @ [Move_assign 1 0]) =
         Some s)"
proof -
  let ?calls = "[Construct, Construct_init [10, 20], Member 0 (Push_front 3), Member 0 Pop_back,
             Move_assign 0 1, Copy_assign 0 0, Member 0 (Erase 0)] :: nat call list"
  let ?c = "\<lparr>temp_node = Some 1, size_field = 1\<rparr> :: nat CircularList"
  let ?os = "[Some ?c, Some \<lparr>temp_node = None, size_field = 0\<rparr>] :: nat objects"
  let ?hp = "[None, Some \<lparr>node_value = 0, node_next = Some 3, node_prev = Some 3\<rparr>, None,
              Some \<lparr>node_value = 20, node_next = Some 1, node_prev = Some 1\<rparr>, None] :: nat heap"
  have r: "ring heap123 list123 [1, 2, 3]" "ring heap_empty list_empty []"
    using repr_example repr_empty_example by (simp_all add: repr_def)
  have sz: "size_cl list123 \<noteq> 0" "size_cl list_empty = 0" "size_cl ?c \<noteq> 0"
    by (simp_all add: size_cl_def list123_def list_empty_def)
  obtain h' l' where rn: "run heap123 list123 [Pop_back, Erase 5, Push_front 7, Clear] = (h', l')"
    by (cases "run heap123 list123 [Pop_back, Erase 5, Push_front 7, Clear]") blast
  have ex: "exec 0 ([], []) ?calls = Some (?hp, ?os)" by code_simp
  have ob: "object ?os 0 = Some ?c" "temp_node ?c \<noteq> None" by (simp_all add: object_def)
  have sc: "in_scope ?os (Move_assign 1 0)" by (simp add: live_def usable_def object_def)
  note w = empty_size_begin_end [where h = heap123 and l = list123 and as = "[1, 2, 3]"
      and ops = "[Pop_back, Erase 5, Push_front 7, Clear]" and h' = h' and l' = l'
      and d = 0 and ?h0.0 = "[]" and ys = "[]" and r = "Inr ()"
      and hp = "[]" and os = "[]" and calls = ?calls and hp' = ?hp and os' = ?os
      and i = 0 and c = ?c and call = "Move_assign 1 0"]
  from w r(1) rn sz(1)
  have a: "\<not> empty_cl list123"
    "\<exists>b. begin_cl heap123 list123 = Some b \<and> \<not> iter_eq b (end_cl list123)"
    "\<exists>b. begin_cl h' l' = Some b \<and> (empty_cl l' \<longleftrightarrow> size_cl l' = 0) \<and>
      (size_cl l' = 0 \<longleftrightarrow> iter_eq b (end_cl l'))"
    by blast+
  from empty_size_begin_end [where h = heap_empty and l = list_empty and as = "[]"
      and ops = "[]" and h' = heap_empty and l' = list_empty
      and d = 0 and ?h0.0 = "[]" and ys = "[]" and r = "Inr ()"
      and hp = "[]" and os = "[]" and calls = "[]" and hp' = "[]" and os' = "[]"] r(2) sz(2)
  have b: "empty_cl list_empty"
    "\<exists>b. begin_cl heap_empty list_empty = Some b \<and> iter_eq b (end_cl list_empty)"
    by blast+
  from a(3) rn have c: "\<exists>h' l' b.
      run heap123 list123 [Pop_back, Erase 5, Push_front 7, Clear] = (h', l') \<and>
      begin_cl h' l' = Some b \<and> (empty_cl l' \<longleftrightarrow> size_cl l' = 0) \<and>
      (size_cl l' = 0 \<longleftrightarrow> iter_eq b (end_cl l'))"
    by (intro exI [of _ h'] exI [of _ l']) (simp del: run.simps)
  from w have s0: "sound ([] :: nat heap) []" by blast
  from w s0 ex ob sz(3)
  have d: "\<not> empty_cl ?c" "\<exists>b. begin_cl ?hp ?c = Some b \<and> \<not> iter_eq b (end_cl ?c)"
    by blast+
  from ex d sz(3)
  have e: "\<exists>hp. exec 0 ([], []) ?calls = Some (hp, ?os) \<and> \<not> empty_cl ?c \<and> size_cl ?c \<noteq> 0 \<and>
      (\<exists>b. begin_cl hp ?c = Some b \<and> \<not> iter_eq b (end_cl ?c))"
    by (intro exI [of _ ?hp] conjI)
  from w s0 ex sc have f: "\<exists>s. exec 0 ([], []) (?calls @ [Move_assign 1 0]) = Some s"
    by blast
  show ?thesis by (intro conjI r sz(1,2) a(1,2) b c s0 e sc f)
qed

text \<open>
  C7 does not hold for every public operation, for the same reason as C6: \<^verbatim>\<open>erase\<close> and
  \<^verbatim>\<open>emplace\<close> work on the node of the iterator they are given, whatever container it
  belongs to. For the list \<^verbatim>\<open>l\<close> with the elements 10, 20, 30 and its copy \<^verbatim>\<open>c\<close>, both
  rings, \<^verbatim>\<open>l.erase(c.begin())\<close> raises nothing; it unlinks and releases the first node of
  \<^verbatim>\<open>c\<close> and decrements the size of \<^verbatim>\<open>l\<close>. Afterwards three nodes are reachable from the
  sentinel of \<^verbatim>\<open>l\<close> while its size is 2, and two from the sentinel of \<^verbatim>\<open>c\<close> while its size
  is 3: neither object satisfies the invariant.
\<close>

theorem foreign_position_breaks_ring:
  "copy_ctor 0 heap123 list123 = Some (heap_two, list_copy, Inr ()) \<and>
   ring_invariant heap_two list123 [1, 2, 3] \<and>
   ring_invariant heap_two list_copy [5, 6, 7] \<and>
   begin_cl heap_two list_copy = Some (iterator_ctor (Some 5) (Some 4)) \<and>
   erase heap_two list123 (iterator_ctor (Some 5) (Some 4)) =
     (heap_torn, list_torn, Inr (iterator_ctor (Some 6) (Some 0))) \<and>
   nodes_of heap_torn list_torn = [1, 2, 3] \<and> size_cl list_torn = 2 \<and>
   \<not> ring_invariant heap_torn list_torn (nodes_of heap_torn list_torn) \<and>
   nodes_of heap_torn list_copy = [6, 7] \<and> size_cl list_copy = 3 \<and>
   \<not> ring_invariant heap_torn list_copy (nodes_of heap_torn list_copy)"
  by code_simp

text \<open>
  C7, for calls whose positions belong to the container they are made on. The default
  and the initializer-list constructor establish the ring invariant. In a ring,
  \<^verbatim>\<open>n.next.prev == n\<close> and \<^verbatim>\<open>n.prev.next == n\<close> hold for the sentinel and for every node, and
  \<^verbatim>\<open>size_\<close> is the number of nodes other than the sentinel. Every call that changes a
  container, and every sequence of such calls, leads from a ring to a ring; so do
  \<^verbatim>\<open>emplace\<close>, \<^verbatim>\<open>insert\<close> and \<^verbatim>\<open>erase\<close> at any position of the ring. The copy constructor
  returns a ring and leaves its argument a ring. Assigning an object to itself, by copy or
  by move, changes nothing. Copy assignment from another ring leaves both objects rings;
  move assignment from another ring gives the assigned object the ring of the source. A
  move, by constructor or by assignment, leaves its source with no sentinel and size 0,
  which is the state of an object that was moved from and not that of a container.

  In a program with any number of containers, every sequence of constructor, destructor,
  assignment and member calls that starts in a sound state, for instance with no
  container at all, ends in a sound state: each object that has a sentinel satisfies the
  invariant with the nodes reachable from its sentinel, each object without a sentinel has
  size 0, and no cell belongs to two objects. In a sound state every call that is in scope
  returns and leaves a sound state.
\<close>

theorem ring_invariant_preserved:
  "(\<exists>h' l'. default_ctor d h = Some (h', l') \<and> ring_invariant h' l' []) \<and>
   (\<exists>h' l' as'. init_ctor d h ys = Some (h', l', Inr ()) \<and> ring_invariant h' l' as') \<and>
   copy_assign h this l this l = Some (h, l, Inr ()) \<and>
   move_assign h this l this l = (h, l, l, Inr ()) \<and>
   (ring h l as \<longrightarrow>
      ring_invariant h l as \<and>
      (\<exists>h' l' r as'. apply_op h l x = (h', l', r) \<and> ring_invariant h' l' as') \<and>
      (\<exists>h' l' as'. run h l ops = (h', l') \<and> ring_invariant h' l' as') \<and>
      (j \<le> length as \<and> current pos = node_pos l as j \<longrightarrow>
         (\<exists>h' l' it. emplace h l pos v = (h', l', Inr it) \<and>
            insert_cl h l pos v = (h', l', Inr it) \<and>
            ring_invariant h' l' (insert_at j (length h) as))) \<and>
      (j < length as \<and> current pos = node_pos l as j \<longrightarrow>
         (\<exists>h' l' it. erase h l pos = (h', l', Inr it) \<and>
            ring_invariant h' l' (remove_at j as))) \<and>
      (\<exists>h' c cs. copy_ctor d h l = Some (h', c, Inr ()) \<and>
         ring_invariant h' c cs \<and> ring_invariant h' l as) \<and>
      ring_invariant h (fst (move_ctor l)) as \<and>
      snd (move_ctor l) = \<lparr>temp_node = None, size_field = 0\<rparr> \<and>
      (ring h other bs \<and> cells l as \<inter> cells other bs = {} \<and> this \<noteq> that \<longrightarrow>
         (\<exists>h' l' as'. copy_assign h this l that other = Some (h', l', Inr ()) \<and>
            ring_invariant h' l' as' \<and> ring_invariant h' other bs) \<and>
         (\<exists>h' l'. move_assign h this l that other =
              (h', l', \<lparr>temp_node = None, size_field = 0\<rparr>, Inr ()) \<and>
            ring_invariant h' l' bs))) \<and>
   sound hp [] \<and>
   (sound hp os \<and> exec d (hp, os) calls = Some (hp', os') \<longrightarrow>
      sound hp' os' \<and>
      (\<forall>i c. object os' i = Some c \<and> temp_node c \<noteq> None \<longrightarrow>
         ring_invariant hp' c (nodes_of hp' c)) \<and>
      (\<forall>i c. object os' i = Some c \<and> temp_node c = None \<longrightarrow> size_field c = 0) \<and>
      (\<forall>i k c c'. i \<noteq> k \<and> object os' i = Some c \<and> object os' k = Some c' \<longrightarrow>
         cells c (nodes_of hp' c) \<inter> cells c' (nodes_of hp' c') = {})) \<and>
   (sound hp os \<and> in_scope os call \<longrightarrow>
      (\<exists>hp' os'. step d (hp, os) call = Some (hp', os') \<and> sound hp' os'))"
proof (intro conjI impI)
  from default_ctor_repr [of d h]
  show "\<exists>h' l'. default_ctor d h = Some (h', l') \<and> ring_invariant h' l' []"
    by (auto simp: repr_def intro: ring_invariantI)
  from init_ctor_repr [of d h ys]
  show "\<exists>h' l' as'. init_ctor d h ys = Some (h', l', Inr ()) \<and> ring_invariant h' l' as'"
    by (auto simp: repr_def intro: ring_invariantI)
  show "copy_assign h this l this l = Some (h, l, Inr ())"
    by (rule self_assign)
  show "move_assign h this l this l = (h, l, l, Inr ())"
    by (rule self_assign)
  show "sound hp []" by (rule sound_empty)
next
  assume a: "sound hp os \<and> exec d (hp, os) calls = Some (hp', os')"
  then have s: "sound hp' os'" using exec_sound [of hp os d calls hp' os'] by simp
  then show "sound hp' os'" .
  show "\<forall>i c. object os' i = Some c \<and> temp_node c \<noteq> None \<longrightarrow>
         ring_invariant hp' c (nodes_of hp' c)"
  proof (intro allI impI)
    fix i c assume o: "object os' i = Some c \<and> temp_node c \<noteq> None"
    with sound_ok [OF s, of i c] have "holds_ring hp' c" by (simp add: sentinel_holds_ring)
    then show "ring_invariant hp' c (nodes_of hp' c)"
      by (simp add: holds_ring_def ring_invariantI)
  qed
  show "\<forall>i c. object os' i = Some c \<and> temp_node c = None \<longrightarrow> size_field c = 0"
  proof (intro allI impI)
    fix i c assume o: "object os' i = Some c \<and> temp_node c = None"
    with sound_ok [OF s, of i c] show "size_field c = 0"
      by (auto simp: moved_from_def holds_ring_def ring_def)
  qed
  show "\<forall>i k c c'. i \<noteq> k \<and> object os' i = Some c \<and> object os' k = Some c' \<longrightarrow>
         cells c (nodes_of hp' c) \<inter> cells c' (nodes_of hp' c') = {}"
    using s unfolding sound_def footprint_def by blast
next
  assume a: "sound hp os \<and> in_scope os call"
  then have s: "sound hp os" and sc: "in_scope os call" by simp_all
  from step_defined [OF s sc, of d] obtain hp' os' where
    st: "step d (hp, os) call = Some (hp', os')" by blast
  from step_sound [OF s st] st
  show "\<exists>hp' os'. step d (hp, os) call = Some (hp', os') \<and> sound hp' os'" by blast
next
  assume rg: "ring h l as"
  from ring_repr [OF rg] obtain xs where r: "repr h l as xs" by blast
  show "ring_invariant h l as" by (rule ring_invariantI [OF rg])
  from apply_op_repr [OF r, of x]
  show "\<exists>h' l' r as'. apply_op h l x = (h', l', r) \<and> ring_invariant h' l' as'"
    by (auto simp: repr_def intro: ring_invariantI)
  from run_repr [OF r, of ops]
  show "\<exists>h' l' as'. run h l ops = (h', l') \<and> ring_invariant h' l' as'"
    by (auto simp: repr_def intro: ring_invariantI)
  from copy_ctor_repr [OF r, of d]
  show "\<exists>h' c cs. copy_ctor d h l = Some (h', c, Inr ()) \<and>
         ring_invariant h' c cs \<and> ring_invariant h' l as"
    by (auto simp: repr_def intro: ring_invariantI)
  have "ring h (fst (move_ctor l)) as"
    using rg ring_cong [of "fst (move_ctor l)" l h as] by (simp add: move_ctor_def)
  then show "ring_invariant h (fst (move_ctor l)) as" by (rule ring_invariantI)
  show "snd (move_ctor l) = \<lparr>temp_node = None, size_field = 0\<rparr>"
    by (simp add: move_ctor_def)
  show "\<exists>h' l' it. emplace h l pos v = (h', l', Inr it) \<and>
            insert_cl h l pos v = (h', l', Inr it) \<and>
            ring_invariant h' l' (insert_at j (length h) as)"
    if "j \<le> length as \<and> current pos = node_pos l as j"
    using emplace_repr_frame [OF r, of j pos v] that
    by (auto simp: repr_def insert_cl_def intro: ring_invariantI)
  show "\<exists>h' l' it. erase h l pos = (h', l', Inr it) \<and>
            ring_invariant h' l' (remove_at j as)"
    if "j < length as \<and> current pos = node_pos l as j"
    using erase_repr_frame [OF r, of j pos] that
    by (auto simp: repr_def intro: ring_invariantI)
  assume o: "ring h other bs \<and> cells l as \<inter> cells other bs = {} \<and> this \<noteq> that"
  then obtain zs where ro: "repr h other bs zs" using ring_repr by blast
  from o have dj: "cells l as \<inter> cells other bs = {}" and ne: "this \<noteq> that" by simp_all
  from copy_assign_repr [OF r ro dj ne]
  show "\<exists>h' l' as'. copy_assign h this l that other = Some (h', l', Inr ()) \<and>
            ring_invariant h' l' as' \<and> ring_invariant h' other bs"
    by (auto simp: repr_def intro: ring_invariantI)
  from move_assign_repr [OF r ro dj ne]
  show "\<exists>h' l'. move_assign h this l that other =
              (h', l', \<lparr>temp_node = None, size_field = 0\<rparr>, Inr ()) \<and>
            ring_invariant h' l' bs"
    by (auto simp: repr_def intro: ring_invariantI)
qed

theorem ring_invariant_preserved_witness:
  "ring heap_two list123 [1, 2, 3] \<and> ring heap_two list_copy [5, 6, 7] \<and>
   cells list123 [1, 2, 3] \<inter> cells list_copy [5, 6, 7] = {} \<and>
   current (position list123 [1, 2, 3] 1) = node_pos list123 [1, 2, 3] 1 \<and>
   ring_invariant heap_two list123 [1, 2, 3] \<and>
   (\<exists>h' l' r as'. apply_op heap_two list123 Pop_back = (h', l', r) \<and>
      ring_invariant h' l' as') \<and>
   (\<exists>h' l' it. emplace heap_two list123 (position list123 [1, 2, 3] 1) 15 = (h', l', Inr it) \<and>
      ring_invariant h' l' [1, 8, 2, 3]) \<and>
   (\<exists>h' l' it. erase heap_two list123 (position list123 [1, 2, 3] 1) = (h', l', Inr it) \<and>
      ring_invariant h' l' [1, 3]) \<and>
   (\<exists>h' l' as'. copy_assign heap_two 0 list123 1 list_copy = Some (h', l', Inr ()) \<and>
      ring_invariant h' l' as' \<and> ring_invariant h' list_copy [5, 6, 7]) \<and>
   (\<exists>h' l'. move_assign heap_two 0 list123 1 list_copy =
        (h', l', \<lparr>temp_node = None, size_field = 0\<rparr>, Inr ()) \<and>
      ring_invariant h' l' [5, 6, 7]) \<and>
   copy_assign heap_two 0 list123 0 list123 = Some (heap_two, list123, Inr ()) \<and>
   move_assign heap_two 0 list123 0 list123 = (heap_two, list123, list123, Inr ()) \<and>
   sound ([] :: nat heap) [] \<and>
   (\<exists>hp. exec (0 :: nat) ([], [])
            [Construct_init [10, 20, 30], Construct_copy 0, Member 1 (Erase 0),
             Copy_assign 0 1, Copy_assign 0 0, Construct_move 1, Move_assign 1 0,
             Member 1 (Push_back 5), Destroy 0] =
          Some (hp, [None, Some \<lparr>temp_node = Some 0, size_field = 3\<rparr>,
                     Some \<lparr>temp_node = Some 4, size_field = 2\<rparr>]) \<and>
      ring_invariant hp \<lparr>temp_node = Some 0, size_field = 3\<rparr> [8, 9, 10] \<and>
      ring_invariant hp \<lparr>temp_node = Some 4, size_field = 2\<rparr> [6, 7] \<and>
      in_scope [None, Some \<lparr>temp_node = Some 0, size_field = 3\<rparr>,
                Some \<lparr>temp_node = Some 4, size_field = 2\<rparr>] (Copy_assign 1 2) \<and>
      (\<exists>hp' os'. step 0 (hp, [None, Some \<lparr>temp_node = Some 0, size_field = 3\<rparr>,
                                Some \<lparr>temp_node = Some 4, size_field = 2\<rparr>])
                    (Copy_assign 1 2) = Some (hp', os') \<and> sound hp' os'))"
proof -
  let ?as = "[1, 2, 3 :: nat]" and ?bs = "[5, 6, 7 :: nat]"
  let ?calls = "[Construct_init [10, 20, 30], Construct_copy 0, Member 1 (Erase 0),
             Copy_assign 0 1, Copy_assign 0 0, Construct_move 1, Move_assign 1 0,
             Member 1 (Push_back 5), Destroy 0] :: nat call list"
  let ?c1 = "\<lparr>temp_node = Some 0, size_field = 3\<rparr> :: nat CircularList"
  let ?c2 = "\<lparr>temp_node = Some 4, size_field = 2\<rparr> :: nat CircularList"
  let ?os = "[None, Some ?c1, Some ?c2] :: nat objects"
  let ?hp = "[Some \<lparr>node_value = 0, node_next = Some 8, node_prev = Some 10\<rparr>, None,
      None, None,
      Some \<lparr>node_value = 0, node_next = Some 6, node_prev = Some 7\<rparr>, None,
      Some \<lparr>node_value = 20, node_next = Some 7, node_prev = Some 4\<rparr>,
      Some \<lparr>node_value = 30, node_next = Some 4, node_prev = Some 6\<rparr>,
      Some \<lparr>node_value = 20, node_next = Some 9, node_prev = Some 0\<rparr>,
      Some \<lparr>node_value = 30, node_next = Some 10, node_prev = Some 8\<rparr>,
      Some \<lparr>node_value = 5, node_next = Some 0, node_prev = Some 9\<rparr>] :: nat heap"
  have r: "ring heap_two list123 ?as" "ring heap_two list_copy ?bs"
    using two_lists_example by (simp_all add: repr_def)
  have dj: "cells list123 ?as \<inter> cells list_copy ?bs = {}"
    by (simp add: cells_def list123_def list_copy_def)
  have ne: "(0 :: obj) \<noteq> 1" by simp
  have j: "1 \<le> length ?as" "1 < length ?as" by simp_all
  have c: "current (position list123 ?as 1) = node_pos list123 ?as 1"
    by (rule current_position)
  have len: "insert_at 1 (length heap_two) ?as = [1, 8, 2, 3]" "remove_at 1 ?as = [1, 3]"
    by (simp_all add: insert_at_def remove_at_def heap_two_def heap123_def)
  have ex: "exec 0 ([], []) ?calls = Some (?hp, ?os)" by code_simp
  have ob: "object ?os 1 = Some ?c1" "temp_node ?c1 \<noteq> None"
    "object ?os 2 = Some ?c2" "temp_node ?c2 \<noteq> None"
    by (simp_all add: object_def)
  have nd: "nodes_of ?hp ?c1 = [8, 9, 10]" "nodes_of ?hp ?c2 = [6, 7]" by code_simp+
  have sc: "in_scope ?os (Copy_assign 1 2)" by (simp add: usable_def object_def)
  note w = ring_invariant_preserved [where h = heap_two and l = list123 and as = ?as
      and other = list_copy and bs = ?bs and j = 1 and pos = "position list123 ?as 1"
      and x = Pop_back and ops = "[]" and d = 0 and ys = "[]" and v = 15
      and this = 0 and that = 1
      and hp = "[]" and os = "[]" and calls = "[]" and hp' = "[]" and os' = "[]"
      and call = Construct, unfolded len]
  note u = ring_invariant_preserved [where h = heap_two and l = list123 and as = ?as
      and other = list_copy and bs = ?bs and j = 1 and pos = "position list123 ?as 1"
      and x = Pop_back and ops = "[]" and d = 0 and ys = "[]" and v = 15
      and this = 0 and that = 0
      and hp = "[]" and os = "[]" and calls = ?calls and hp' = ?hp and os' = ?os
      and call = Construct]
  note t = ring_invariant_preserved [where h = heap_two and l = list123 and as = ?as
      and other = list_copy and bs = ?bs and j = 1 and pos = "position list123 ?as 1"
      and x = Pop_back and ops = "[]" and d = 0 and ys = "[]" and v = 15
      and this = 0 and that = 0
      and hp = ?hp and os = ?os and calls = "[]" and hp' = ?hp and os' = ?os
      and call = "Copy_assign 1 2"]
  from w r(1) have a: "ring_invariant heap_two list123 ?as"
    "\<exists>h' l' r as'. apply_op heap_two list123 Pop_back = (h', l', r) \<and>
      ring_invariant h' l' as'"
    by blast+
  from w r(1) j(1) c
  have b: "\<exists>h' l' it. emplace heap_two list123 (position list123 ?as 1) 15 = (h', l', Inr it) \<and>
      ring_invariant h' l' [1, 8, 2, 3]"
    by blast
  from w r(1) j(2) c
  have e: "\<exists>h' l' it. erase heap_two list123 (position list123 ?as 1) = (h', l', Inr it) \<and>
      ring_invariant h' l' [1, 3]"
    by blast
  from w r dj ne
  have m: "\<exists>h' l' as'. copy_assign heap_two 0 list123 1 list_copy = Some (h', l', Inr ()) \<and>
      ring_invariant h' l' as' \<and> ring_invariant h' list_copy ?bs"
    "\<exists>h' l'. move_assign heap_two 0 list123 1 list_copy =
        (h', l', \<lparr>temp_node = None, size_field = 0\<rparr>, Inr ()) \<and>
      ring_invariant h' l' ?bs"
    by blast+
  from u have sf: "copy_assign heap_two 0 list123 0 list123 = Some (heap_two, list123, Inr ())"
    "move_assign heap_two 0 list123 0 list123 = (heap_two, list123, list123, Inr ())"
    by blast+
  from u have s0: "sound ([] :: nat heap) []" by blast
  from u s0 ex have after: "sound ?hp ?os"
    "\<forall>i c. object ?os i = Some c \<and> temp_node c \<noteq> None \<longrightarrow>
       ring_invariant ?hp c (nodes_of ?hp c)"
    by blast+
  from after(2) ob have ri: "ring_invariant ?hp ?c1 (nodes_of ?hp ?c1)"
    "ring_invariant ?hp ?c2 (nodes_of ?hp ?c2)"
    by blast+
  from t after(1) sc
  have st: "\<exists>hp' os'. step 0 (?hp, ?os) (Copy_assign 1 2) = Some (hp', os') \<and> sound hp' os'"
    by blast
  note ri' = ri [unfolded nd]
  have p: "\<exists>hp. exec 0 ([], []) ?calls = Some (hp, ?os) \<and>
      ring_invariant hp ?c1 [8, 9, 10] \<and> ring_invariant hp ?c2 [6, 7] \<and>
      in_scope ?os (Copy_assign 1 2) \<and>
      (\<exists>hp' os'. step 0 (hp, ?os) (Copy_assign 1 2) = Some (hp', os') \<and> sound hp' os')"
    by (rule exI [of _ ?hp])
       (rule conjI [OF ex conjI [OF ri'(1) conjI [OF ri'(2) conjI [OF sc st]]]])
  show ?thesis by (intro conjI r dj c a b e m sf s0 p)
qed

text \<open>
  C8. The copy constructor applied to a represented list returns, and the new container
  represents the same elements in the same order at addresses of its own: it shares no
  cell with the original, which still represents its elements. After any sequence of
  calls on the copy (insertions, erasures, overwriting of elements, and the rest) the
  original still represents the same elements at the same addresses, with the same size.
\<close>

theorem copy_is_independent:
  "repr h l as xs \<longrightarrow>
     (\<exists>h' c cs. copy_ctor d h l = Some (h', c, Inr ()) \<and>
        repr h' c cs xs \<and> repr h' l as xs \<and> cells c cs \<inter> cells l as = {} \<and>
        size_cl c = size_cl l \<and>
        forward_iteration h' c = Some (Inr xs) \<and> forward_iteration h' l = Some (Inr xs) \<and>
        (\<exists>h'' c' cs'. run h' c ops = (h'', c') \<and>
           repr h'' c' cs' (foldl (\<lambda>xs x. abs_op x xs) xs ops) \<and>
           repr h'' l as xs \<and> size_cl l = length xs \<and>
           forward_iteration h'' l = Some (Inr xs)))"
proof
  assume r: "repr h l as xs"
  from copy_ctor_repr [OF r, of d] obtain h' c cs where
    cc: "copy_ctor d h l = Some (h', c, Inr ())" and rc: "repr h' c cs xs"
    and rl: "repr h' l as xs" and dj: "cells c cs \<inter> cells l as = {}"
    by blast
  from run_repr [OF rc, of ops] obtain h'' c' cs' where
    rn: "run h' c ops = (h'', c')"
    and rc': "repr h'' c' cs' (foldl (\<lambda>xs x. abs_op x xs) xs ops)"
    and f: "frame h' h'' (cells c cs)"
    by blast
  have rl': "repr h'' l as xs" by (rule repr_frame [OF rl f]) (use dj in blast)
  have sz: "size_cl c = size_cl l" "size_cl l = length xs"
    using repr_size [OF rc] repr_size [OF rl] by (simp_all add: size_cl_def)
  show "\<exists>h' c cs. copy_ctor d h l = Some (h', c, Inr ()) \<and>
        repr h' c cs xs \<and> repr h' l as xs \<and> cells c cs \<inter> cells l as = {} \<and>
        size_cl c = size_cl l \<and>
        forward_iteration h' c = Some (Inr xs) \<and> forward_iteration h' l = Some (Inr xs) \<and>
        (\<exists>h'' c' cs'. run h' c ops = (h'', c') \<and>
           repr h'' c' cs' (foldl (\<lambda>xs x. abs_op x xs) xs ops) \<and>
           repr h'' l as xs \<and> size_cl l = length xs \<and>
           forward_iteration h'' l = Some (Inr xs))"
    using cc rc rl dj sz rn rc' rl' forward_iteration_repr [OF rc] forward_iteration_repr [OF rl]
      forward_iteration_repr [OF rl']
    by (intro exI [of _ h'] exI [of _ c] exI [of _ cs] conjI
        exI [of _ h''] exI [of _ c'] exI [of _ cs']) simp_all
qed

theorem copy_is_independent_witness:
  "repr heap123 list123 [1, 2, 3] [10, 20, 30] \<and>
   (\<exists>h' c cs. copy_ctor 0 heap123 list123 = Some (h', c, Inr ()) \<and>
      repr h' c cs [10, 20, 30] \<and> forward_iteration h' c = Some (Inr [10, 20, 30]) \<and>
      (\<exists>h'' c' cs'. run h' c [Insert 1 15, Erase 0, Assign 1 99] = (h'', c') \<and>
         repr h'' c' cs' [15, 99, 30] \<and>
         repr h'' list123 [1, 2, 3] [10, 20, 30] \<and>
         forward_iteration h'' list123 = Some (Inr [10, 20, 30])))"
proof -
  have f: "foldl (\<lambda>xs x. abs_op x xs) [10, 20, 30 :: nat] [Insert 1 15, Erase 0, Assign 1 99] =
      [15, 99, 30]"
    by (simp add: insert_at_def remove_at_def)
  from copy_is_independent [where h = heap123 and l = list123 and as = "[1, 2, 3]"
      and xs = "[10, 20, 30]" and d = 0 and ops = "[Insert 1 15, Erase 0, Assign 1 99]"]
    repr_example
  show ?thesis unfolding f by blast
qed

text \<open>
  C9. Two default-constructed iterators compare equal, and dereferencing, member access
  and increment of a default-constructed iterator raise the out-of-range error: the null
  \<^verbatim>\<open>current_\<close> equals the null \<^verbatim>\<open>temp_node_\<close>, so the check fires before any memory is read.
\<close>

theorem default_iterator_checked:
  "iter_eq iterator_default iterator_default \<and>
   iter_deref h iterator_default = Inl out_of_range \<and>
   iter_arrow h iterator_default = Inl out_of_range \<and>
   iter_inc h iterator_default = Inl out_of_range"
  by (simp add: iter_eq_def iter_deref_def iter_arrow_def iter_inc_def
      iterator_default_def iterator_ctor_def)

text \<open>
  C10. \<^verbatim>\<open>emplace\<close> and \<^verbatim>\<open>insert\<close> at a position \<open>j\<close> of a represented list, \<^verbatim>\<open>begin()\<close> and
  \<^verbatim>\<open>end()\<close> included, succeed and return an iterator that dereferences to the new value. The
  list then represents the old elements in their old order with the new value in front of
  position \<open>j\<close>, \<^verbatim>\<open>size_\<close> is one more, and the heap has one more cell. No old cell
  changes its value; the only old \<^verbatim>\<open>next\<close> link that changes is that of the node before the
  position, and the only old \<^verbatim>\<open>prev\<close> link that changes is that of the node at the position:
  both now point to the new node, whose own links point to these two nodes.
\<close>

theorem emplace_frame:
  "repr h l as xs \<and> j \<le> length as \<and> current pos = node_pos l as j \<longrightarrow>
     (\<exists>h' l' it. emplace h l pos v = (h', l', Inr it) \<and>
        insert_cl h l pos v = (h', l', Inr it) \<and>
        repr h' l' (insert_at j (length h) as) (insert_at j v xs) \<and>
        size_cl l' = size_cl l + 1 \<and>
        it = position l' (insert_at j (length h) as) j \<and>
        iter_deref h' it = Inr v \<and>
        length h' = Suc (length h) \<and>
        (\<forall>a. a \<noteq> length h \<longrightarrow> get_value h' (Some a) = get_value h (Some a)) \<and>
        (\<forall>a. a \<noteq> length h \<and> Some a \<noteq> pred_pos l as j \<longrightarrow> next_of h' a = next_of h a) \<and>
        (\<forall>a. a \<noteq> length h \<and> Some a \<noteq> node_pos l as j \<longrightarrow> prev_of h' a = prev_of h a) \<and>
        (\<forall>a. a \<noteq> length h \<and> Some a \<noteq> pred_pos l as j \<and> Some a \<noteq> node_pos l as j \<longrightarrow>
             node_at h' (Some a) = node_at h (Some a)) \<and>
        (\<forall>p. pred_pos l as j = Some p \<longrightarrow> next_of h' p = Some (Some (length h))) \<and>
        (\<forall>t. node_pos l as j = Some t \<longrightarrow> prev_of h' t = Some (Some (length h))) \<and>
        next_of h' (length h) = Some (node_pos l as j) \<and>
        prev_of h' (length h) = Some (pred_pos l as j))"
proof
  assume a: "repr h l as xs \<and> j \<le> length as \<and> current pos = node_pos l as j"
  then have r: "repr h l as xs" and j: "j \<le> length as" and pos: "current pos = node_pos l as j"
    by simp_all
  define l' where "l' = l\<lparr>size_field := size_field l + 1\<rparr>"
  define it where "it = iterator_ctor (Some (length h)) (temp_node l)"
  define as' where "as' = insert_at j (length h) as"
  from repr_emplace [OF r j pos, of v] obtain h' where
    em: "emplace h l pos v = (h', l', Inr it)"
    and r': "repr h' l' as' (insert_at j v xs)"
    and len: "length h' = Suc (length h)"
    and nx: "\<And>a. next_of h' a = (if Some a = pred_pos l as j then Some (Some (length h))
              else if a = length h then Some (node_pos l as j) else next_of h a)"
    and pv: "\<And>a. prev_of h' a = (if Some a = node_pos l as j then Some (Some (length h))
              else if a = length h then Some (pred_pos l as j) else prev_of h a)"
    and vl: "\<And>a. get_value h' (Some a) = (if a = length h then Some v else get_value h (Some a))"
    and fr: "\<And>a. Some a \<noteq> pred_pos l as j \<and> Some a \<noteq> node_pos l as j \<and> a \<noteq> length h \<longrightarrow>
              node_at h' (Some a) = node_at h (Some a)"
    unfolding l'_def it_def as'_def by blast
  have j': "j < length as'" using j by (simp add: as'_def insert_at_def)
  have nth: "as' ! j = length h" using j by (simp add: as'_def insert_at_def nth_append)
  have p: "it = position l' as' j"
    using j' nth by (simp add: it_def position_def node_pos_def l'_def)
  have lx: "length (insert_at j v xs) = length as'"
    by (simp add: as'_def insert_at_def repr_length [OF r])
  have "insert_at j v xs ! j = v"
    using j repr_length [OF r] by (simp add: insert_at_def nth_append)
  with iter_deref_position [OF r' j'] have d: "iter_deref h' it = Inr v" by (simp add: p)
  have sz: "size_cl l' = size_cl l + 1" by (simp add: size_cl_def l'_def)
  from r have rg: "ring h l as" by (simp add: repr_def)
  from pos_in_cells [OF rg j] obtain p t where
    pt: "pred_pos l as j = Some p" "node_pos l as j = Some t" "p \<in> cells l as" "t \<in> cells l as"
    by blast
  from pt(3,4) cells_less [OF rg] have old: "p \<noteq> length h" "t \<noteq> length h" by auto
  have new: "\<forall>p. pred_pos l as j = Some p \<longrightarrow> next_of h' p = Some (Some (length h))"
    "\<forall>t. node_pos l as j = Some t \<longrightarrow> prev_of h' t = Some (Some (length h))"
    "next_of h' (length h) = Some (node_pos l as j)"
    "prev_of h' (length h) = Some (pred_pos l as j)"
    using pt(1,2) old by (auto simp: nx pv)
  show "\<exists>h' l' it. emplace h l pos v = (h', l', Inr it) \<and>
        insert_cl h l pos v = (h', l', Inr it) \<and>
        repr h' l' (insert_at j (length h) as) (insert_at j v xs) \<and>
        size_cl l' = size_cl l + 1 \<and>
        it = position l' (insert_at j (length h) as) j \<and>
        iter_deref h' it = Inr v \<and>
        length h' = Suc (length h) \<and>
        (\<forall>a. a \<noteq> length h \<longrightarrow> get_value h' (Some a) = get_value h (Some a)) \<and>
        (\<forall>a. a \<noteq> length h \<and> Some a \<noteq> pred_pos l as j \<longrightarrow> next_of h' a = next_of h a) \<and>
        (\<forall>a. a \<noteq> length h \<and> Some a \<noteq> node_pos l as j \<longrightarrow> prev_of h' a = prev_of h a) \<and>
        (\<forall>a. a \<noteq> length h \<and> Some a \<noteq> pred_pos l as j \<and> Some a \<noteq> node_pos l as j \<longrightarrow>
             node_at h' (Some a) = node_at h (Some a)) \<and>
        (\<forall>p. pred_pos l as j = Some p \<longrightarrow> next_of h' p = Some (Some (length h))) \<and>
        (\<forall>t. node_pos l as j = Some t \<longrightarrow> prev_of h' t = Some (Some (length h))) \<and>
        next_of h' (length h) = Some (node_pos l as j) \<and>
        prev_of h' (length h) = Some (pred_pos l as j)"
    unfolding as'_def [symmetric]
    using em r' sz p d len nx pv vl fr new
    by (intro exI [of _ h'] exI [of _ l'] exI [of _ it]) (simp add: insert_cl_def)
qed

theorem emplace_frame_witness:
  "repr heap123 list123 [1, 2, 3] [10, 20, 30] \<and>
   begin_cl heap123 list123 = Some (position list123 [1, 2, 3] 0) \<and>
   end_cl list123 = position list123 [1, 2, 3] 3 \<and>
   (\<exists>h' l' it. emplace heap123 list123 (position list123 [1, 2, 3] 0) 5 = (h', l', Inr it) \<and>
      repr h' l' [4, 1, 2, 3] [5, 10, 20, 30] \<and> iter_deref h' it = Inr 5 \<and> size_cl l' = 4) \<and>
   (\<exists>h' l' it. emplace heap123 list123 (position list123 [1, 2, 3] 1) 15 = (h', l', Inr it) \<and>
      repr h' l' [1, 4, 2, 3] [10, 15, 20, 30] \<and> iter_deref h' it = Inr 15 \<and> size_cl l' = 4) \<and>
   (\<exists>h' l' it. emplace heap123 list123 (end_cl list123) 40 = (h', l', Inr it) \<and>
      repr h' l' [1, 2, 3, 4] [10, 20, 30, 40] \<and> iter_deref h' it = Inr 40 \<and> size_cl l' = 4)"
proof -
  have b: "begin_cl heap123 list123 = Some (position list123 [1, 2, 3] 0)"
    and e: "end_cl list123 = position list123 [1, 2, 3] 3"
    by code_simp+
  have sz: "size_cl list123 = 3" "length heap123 = 4"
    by (simp_all add: size_cl_def list123_def heap123_def)
  have w: "\<exists>h' l' it. emplace heap123 list123 (position list123 [1, 2, 3] j) v = (h', l', Inr it) \<and>
      repr h' l' (insert_at j 4 [1, 2, 3]) (insert_at j v [10, 20, 30]) \<and>
      iter_deref h' it = Inr v \<and> size_cl l' = 4" if "j \<le> 3" for j v
  proof -
    have "repr heap123 list123 [1, 2, 3] [10, 20, 30] \<and> j \<le> length [1, 2, 3 :: nat] \<and>
      current (position list123 [1, 2, 3] j) = node_pos list123 [1, 2, 3] j"
      using repr_example that by (simp add: current_position)
    from emplace_frame [THEN mp, OF this, of v] obtain h' l' it where
      "emplace heap123 list123 (position list123 [1, 2, 3] j) v = (h', l', Inr it)"
      "repr h' l' (insert_at j (length heap123) [1, 2, 3]) (insert_at j v [10, 20, 30])"
      "iter_deref h' it = Inr v" "size_cl l' = size_cl list123 + 1"
      by blast
    then show ?thesis by (auto simp: sz)
  qed
  from w [of 0 5] w [of 1 15] w [of 3 40] repr_example b
  show ?thesis unfolding e by (simp add: insert_at_def)
qed

end
